theory Spec2Isabelle
  imports Main "HOL-Library.Word"
begin

section \<open>Data model\<close>

text \<open>
  A Go value of type \<^verbatim>\<open>[]byte\<close> is either the nil slice or a slice with contents.
  The sink channel \<^verbatim>\<open>c\<close> carries such values, and the nil slice is the gap marker.
\<close>

type_synonym byte = "8 word"
type_synonym bytes = "byte list"
type_synonym item = "bytes option"

definition item_len :: "item \<Rightarrow> nat" where
  "item_len b = (case b of None \<Rightarrow> 0 | Some d \<Rightarrow> length d)"

datatype error = ErrNotFound | ErrTarget nat

text \<open>
  A target is the caller's \<^verbatim>\<open>io.Writer\<close>. Its state records the argument of every
  \<^verbatim>\<open>Write\<close> call it received (\<open>tlog\<close>), the results its coming \<^verbatim>\<open>Write\<close> calls
  will return (\<open>script\<close>, nil once exhausted), whether it implements \<^verbatim>\<open>io.Closer\<close>,
  what its \<^verbatim>\<open>Close\<close> returns and how often \<^verbatim>\<open>Close\<close> was called.
\<close>

record target =
  tlog :: "item list"
  script :: "error option list"
  closer :: bool
  close_ret :: "error option"
  close_calls :: nat

definition target_Write :: "target \<Rightarrow> item \<Rightarrow> target \<times> error option" where
  "target_Write t b =
     (case script t of
        [] \<Rightarrow> (t\<lparr>tlog := tlog t @ [b]\<rparr>, None)
      | r # rs \<Rightarrow> (t\<lparr>tlog := tlog t @ [b], script := rs\<rparr>, r))"

definition target_Close :: "target \<Rightarrow> target \<times> error option" where
  "target_Close t = (t\<lparr>close_calls := Suc (close_calls t)\<rparr>, close_ret t)"

text \<open>The bytes a \<^verbatim>\<open>bytes.Buffer\<close> target has accumulated.\<close>

definition content :: "target \<Rightarrow> bytes" where
  "content t = concat (map (\<lambda>b. case b of None \<Rightarrow> [] | Some d \<Rightarrow> d) (tlog t))"

definition buffer :: target where
  "buffer = \<lparr>tlog = [], script = [], closer = False, close_ret = None, close_calls = 0\<rparr>"

text \<open>
  Position of the \<^verbatim>\<open>drain\<close> goroutine of a sink:
  \<open>DRange\<close> at the receive of \<^verbatim>\<open>for buf := range s.c\<close>,
  \<open>DWrite b\<close> before \<^verbatim>\<open>s.Writer.Write(buf)\<close>,
  \<open>DDiscard\<close> in \<^verbatim>\<open>for len(s.c) > 0\<close>,
  \<open>DFlushers\<close> at the \<^verbatim>\<open>select\<close> of loop \<^verbatim>\<open>F\<close>,
  \<open>DAck f\<close> at \<^verbatim>\<open>f <- struct{}{}\<close>,
  \<open>DErrClose\<close> before \<^verbatim>\<open>s.Close()\<close> on the error path,
  \<open>DSink\<close> in \<^verbatim>\<open>for _ = range s.c\<close>, \<open>DExit\<close> after return.
\<close>

datatype dpc = DRange | DWrite item | DDiscard | DFlushers | DAck nat
  | DErrClose | DSink | DExit

record sink =
  writer :: "nat option"
  c_buf :: "item list"
  c_cap :: nat
  c_closed :: bool
  recv_wait :: bool
  done_closed :: bool
  flushers :: "nat list"
  flushers_closed :: bool
  err :: "error option"
  pc :: dpc

text \<open>
  \<^verbatim>\<open>len(s.c)\<close>: an unbuffered channel always reports 0. A send can proceed when the
  buffer has room; on an unbuffered channel when the receiver is parked in its receive and
  has not been handed a value yet (the value handed over is kept in \<open>c_buf\<close>).
\<close>

definition chan_len :: "sink \<Rightarrow> nat" where
  "chan_len s = (if c_cap s = 0 then 0 else length (c_buf s))"

definition can_send :: "sink \<Rightarrow> bool" where
  "can_send s =
     (if c_cap s = 0 then recv_wait s \<and> c_buf s = [] else length (c_buf s) < c_cap s)"

definition new_sink :: "nat \<Rightarrow> nat \<Rightarrow> sink" where
  "new_sink t n = \<lparr>writer = Some t, c_buf = [], c_cap = n, c_closed = False,
     recv_wait = False, done_closed = False, flushers = [], flushers_closed = False,
     err = None, pc = DRange\<rparr>"

section \<open>Sink operations (sink.go)\<close>

text \<open>
  \<^verbatim>\<open>sink.Write\<close>. The result is \<open>None\<close> when the call panics (a send on a closed
  channel), otherwise the new sink state and the returned pair.
\<close>

definition sink_Write :: "sink \<Rightarrow> item \<Rightarrow> (sink \<times> nat \<times> error option) option" where
  "sink_Write s b =
     (if done_closed s then Some (s, 0, err s)
      else if c_closed s then None
      else if c_cap s > 1 \<and> chan_len s + 1 = c_cap s
        then Some (s\<lparr>c_buf := c_buf s @ [None]\<rparr>, item_len b, None)
      else if can_send s
        then Some (s\<lparr>c_buf := c_buf s @ [b]\<rparr>, item_len b, None)
      else Some (s, item_len b, None))"

text \<open>
  \<^verbatim>\<open>sink.Close\<close>. The result is \<open>None\<close> while the call blocks in \<^verbatim>\<open><-s.done\<close>.
\<close>

definition sink_Close :: "sink \<Rightarrow> target list \<Rightarrow> (sink \<times> target list \<times> error option) option" where
  "sink_Close s ts =
     (if \<not> done_closed s then None
      else case writer s of
        None \<Rightarrow> Some (s, ts, err s)
      | Some t \<Rightarrow>
          if t < length ts \<and> closer (ts ! t) then
            (let (tg, e) = target_Close (ts ! t);
                 s' = s\<lparr>err := (if err s = None then e else err s), writer := None\<rparr>
             in Some (s', ts[t := tg], err s'))
          else Some (s, ts, err s))"

section \<open>The running system\<close>

datatype call = Add nat | Remove nat | Write bytes | Flush | Close

datatype ret = RAdd | RRemove "error + nat" | RWrite nat "error option" | RFlush
  | RClose "error option"

text \<open>
  Position of the coordinator goroutine \<^verbatim>\<open>Writer.run\<close>:
  \<open>CIdle\<close> at the receive of \<^verbatim>\<open>for cmd := range w.cmd\<close>;
  inside \<^verbatim>\<open>case cmdFlush\<close>, \<open>CFlushNext todo\<close> at the head of the loop over the
  sinks still to visit, and for the sink being flushed (\<^verbatim>\<open>sink.Flush\<close>)
  \<open>CFlushSel\<close> at the \<^verbatim>\<open>select\<close> on \<^verbatim>\<open>s.done\<close>, \<open>CFlushReg\<close> at
  \<^verbatim>\<open>s.flushers <- done\<close>, \<open>CFlushMark\<close> at \<^verbatim>\<open>s.c <- nil\<close> and \<open>CFlushWait\<close> at
  \<^verbatim>\<open><-done\<close>; \<open>CDone\<close> after \<^verbatim>\<open>close(w.done)\<close>.
\<close>

datatype cpc = CIdle | CFlushNext "nat list" | CFlushSel nat "nat list"
  | CFlushReg nat "nat list" | CFlushMark nat nat "nat list"
  | CFlushWait nat nat "nat list" | CDone

record state =
  bufsPerSink :: nat
  registry :: "(nat \<times> nat) list"
  sinks :: "sink list"
  targets :: "target list"
  pending :: "call list"
  rets :: "ret list"
  coord :: cpc
  next_f :: nat
  crashed :: bool

definition init :: "nat \<Rightarrow> target list \<Rightarrow> call list \<Rightarrow> state" where
  "init n ts cs = \<lparr>bufsPerSink = n, registry = [], sinks = [], targets = ts,
     pending = cs, rets = [], coord = CIdle, next_f = 0, crashed = False\<rparr>"

definition crash :: "state \<Rightarrow> state" where
  "crash st = st\<lparr>crashed := True\<rparr>"

definition close_c :: "nat \<Rightarrow> state \<Rightarrow> state" where
  "close_c sid st =
     (if sid < length (sinks st) \<and> \<not> c_closed (sinks st ! sid)
      then st\<lparr>sinks := (sinks st)[sid := (sinks st ! sid)\<lparr>c_closed := True\<rparr>]\<rparr>
      else crash st)"

text \<open>\<^verbatim>\<open>case cmdWrite: for _, s := range sinks { s.Write(cmd) }\<close>\<close>

fun fan_out :: "nat list \<Rightarrow> item \<Rightarrow> state \<Rightarrow> state" where
  "fan_out [] b st = st"
| "fan_out (sid # rest) b st =
     (if sid < length (sinks st) then
        (case sink_Write (sinks st ! sid) b of
           None \<Rightarrow> crash st
         | Some (s', n, e) \<Rightarrow> fan_out rest b (st\<lparr>sinks := (sinks st)[sid := s']\<rparr>))
      else crash st)"

text \<open>The final loop of \<^verbatim>\<open>run\<close>: \<^verbatim>\<open>for _, s := range sinks { close(s.c) }\<close>\<close>

fun close_all :: "nat list \<Rightarrow> state \<Rightarrow> state" where
  "close_all [] st = st"
| "close_all (sid # rest) st = close_all rest (close_c sid st)"

text \<open>
  One API call of the client together with the coordinator's handling of the command it
  sends. \<^verbatim>\<open>Add\<close> builds the sink and starts its \<^verbatim>\<open>drain\<close> goroutine before sending
  \<^verbatim>\<open>cmdAdd\<close>; \<^verbatim>\<open>Write\<close> has copied the caller's buffer, so the command carries the
  contents; \<^verbatim>\<open>Close\<close> closes \<^verbatim>\<open>w.cmd\<close>, which ends the command loop: the
  remaining queues are closed and the registry, a local variable of \<^verbatim>\<open>run\<close>, is gone.
\<close>

fun dispatch :: "call \<Rightarrow> state \<Rightarrow> state" where
  "dispatch (Add t) st =
     (let sid = length (sinks st);
          st1 = st\<lparr>sinks := sinks st @ [new_sink t (bufsPerSink st)]\<rparr>
      in (case map_of (registry st) t of
            Some old \<Rightarrow> close_c sid st1
          | None \<Rightarrow> st1\<lparr>registry := registry st @ [(t, sid)]\<rparr>)
         \<lparr>rets := rets st @ [RAdd]\<rparr>)"
| "dispatch (Remove t) st =
     (case map_of (registry st) t of
        Some sid \<Rightarrow>
          (close_c sid st)\<lparr>registry := filter (\<lambda>kv. fst kv \<noteq> t) (registry st),
                            rets := rets st @ [RRemove (Inr sid)]\<rparr>
      | None \<Rightarrow> st\<lparr>rets := rets st @ [RRemove (Inl ErrNotFound)]\<rparr>)"
| "dispatch (Write d) st =
     (fan_out (map snd (registry st)) (Some d) st)\<lparr>rets := rets st @ [RWrite (length d) None]\<rparr>"
| "dispatch Flush st = st\<lparr>coord := CFlushNext (map snd (registry st))\<rparr>"
| "dispatch Close st =
     (close_all (map snd (registry st)) st)\<lparr>registry := [], coord := CDone,
        rets := rets st @ [RClose None]\<rparr>"

definition upd_sink :: "nat \<Rightarrow> sink \<Rightarrow> state \<Rightarrow> state" where
  "upd_sink sid s st = st\<lparr>sinks := (sinks st)[sid := s]\<rparr>"

definition coord_step :: "state \<Rightarrow> state option" where
  "coord_step st =
     (case coord st of
        CIdle \<Rightarrow>
          (case pending st of
             [] \<Rightarrow> None
           | c # cs \<Rightarrow> Some ((dispatch c st)\<lparr>pending := cs\<rparr>))
      | CFlushNext todo \<Rightarrow>
          (if todo = [] then Some (st\<lparr>coord := CIdle, rets := rets st @ [RFlush]\<rparr>) else None)
      | CFlushSel sid todo \<Rightarrow>
          (if sid < length (sinks st) then
             (if done_closed (sinks st ! sid) then Some (st\<lparr>coord := CFlushNext todo\<rparr>)
              else Some (st\<lparr>coord := CFlushReg sid todo\<rparr>))
           else Some (crash st))
      | CFlushReg sid todo \<Rightarrow>
          (if sid < length (sinks st) then
             (let s = sinks st ! sid in
              if flushers_closed s then Some (crash st)
              else if length (flushers s) < 1 then
                Some ((upd_sink sid (s\<lparr>flushers := flushers s @ [next_f st]\<rparr>) st)
                        \<lparr>coord := CFlushMark sid (next_f st) todo, next_f := Suc (next_f st)\<rparr>)
              else None)
           else Some (crash st))
      | CFlushMark sid f todo \<Rightarrow>
          (if sid < length (sinks st) then
             (let s = sinks st ! sid in
              if c_closed s then Some (crash st)
              else if can_send s then
                Some ((upd_sink sid (s\<lparr>c_buf := c_buf s @ [None]\<rparr>) st)
                        \<lparr>coord := CFlushWait sid f todo\<rparr>)
              else None)
           else Some (crash st))
      | CFlushWait sid f todo \<Rightarrow> None
      | CDone \<Rightarrow> None)"

text \<open>
  The order of \<^verbatim>\<open>for _, s := range sinks\<close> over a Go map is not fixed: any sink still
  to visit can be the next one flushed.
\<close>

definition pick_step :: "nat \<Rightarrow> state \<Rightarrow> state option" where
  "pick_step sid st =
     (case coord st of
        CFlushNext todo \<Rightarrow>
          (if sid \<in> set todo then Some (st\<lparr>coord := CFlushSel sid (remove1 sid todo)\<rparr>)
           else None)
      | _ \<Rightarrow> None)"

text \<open>
  One step of the \<^verbatim>\<open>drain\<close> goroutine on its own sink. \<open>w\<close> is the flush channel on
  which the coordinator is receiving, if it is; the send \<^verbatim>\<open>f <- struct{}{}\<close> on the
  unbuffered channel \<open>f\<close> completes only then. The step is blocked, panics, or gives the new
  sink, the new targets and whether an acknowledgement was delivered.
\<close>

datatype dres = DBlocked | DPanic | DNext sink "target list" bool

definition drain_local :: "sink \<Rightarrow> target list \<Rightarrow> nat option \<Rightarrow> dres" where
  "drain_local s ts w =
     (case pc s of
        DRange \<Rightarrow>
          (case c_buf s of
             x # xs \<Rightarrow>
               DNext (s\<lparr>c_buf := xs, recv_wait := False,
                        pc := (if x = None then DDiscard else DWrite x)\<rparr>) ts False
           | [] \<Rightarrow>
               if c_closed s then
                 DNext (s\<lparr>done_closed := True, flushers_closed := True, pc := DExit\<rparr>) ts False
               else if recv_wait s then DBlocked
               else DNext (s\<lparr>recv_wait := True\<rparr>) ts False)
      | DWrite x \<Rightarrow>
          (case writer s of
             None \<Rightarrow> DPanic
           | Some t \<Rightarrow>
               if t < length ts then
                 (let (tg, e) = target_Write (ts ! t) x in
                  DNext (if e = None then s\<lparr>err := e, pc := DRange\<rparr>
                         else s\<lparr>err := e, done_closed := True, pc := DErrClose\<rparr>)
                        (ts[t := tg]) False)
               else DPanic)
      | DDiscard \<Rightarrow>
          (if chan_len s > 0 then DNext (s\<lparr>c_buf := tl (c_buf s)\<rparr>) ts False
           else DNext (s\<lparr>pc := DFlushers\<rparr>) ts False)
      | DFlushers \<Rightarrow>
          (case flushers s of
             f # fs \<Rightarrow> DNext (s\<lparr>flushers := fs, pc := DAck f\<rparr>) ts False
           | [] \<Rightarrow> DNext (s\<lparr>pc := DRange\<rparr>) ts False)
      | DAck f \<Rightarrow> (if w = Some f then DNext (s\<lparr>pc := DFlushers\<rparr>) ts True else DBlocked)
      | DErrClose \<Rightarrow>
          (case sink_Close s ts of
             None \<Rightarrow> DBlocked
           | Some (s', ts', e) \<Rightarrow> DNext (s'\<lparr>pc := DSink\<rparr>) ts' False)
      | DSink \<Rightarrow>
          (case c_buf s of
             x # xs \<Rightarrow> DNext (s\<lparr>c_buf := xs, recv_wait := False\<rparr>) ts False
           | [] \<Rightarrow>
               if c_closed s then DNext (s\<lparr>pc := DExit\<rparr>) ts False
               else if recv_wait s then DBlocked
               else DNext (s\<lparr>recv_wait := True\<rparr>) ts False)
      | DExit \<Rightarrow> DBlocked)"

fun waiting_on :: "cpc \<Rightarrow> nat option" where
  "waiting_on (CFlushWait sid f todo) = Some f"
| "waiting_on c = None"

fun after_ack :: "cpc \<Rightarrow> cpc" where
  "after_ack (CFlushWait sid f todo) = CFlushNext todo"
| "after_ack c = c"

text \<open>One step of the \<^verbatim>\<open>drain\<close> goroutine of sink \<open>sid\<close> in the running system.\<close>

definition drain_step :: "nat \<Rightarrow> state \<Rightarrow> state option" where
  "drain_step sid st =
     (if sid < length (sinks st) then
        (case drain_local (sinks st ! sid) (targets st) (waiting_on (coord st)) of
           DBlocked \<Rightarrow> None
         | DPanic \<Rightarrow> Some (crash st)
         | DNext s' ts' acked \<Rightarrow>
             Some ((upd_sink sid s' st)
                     \<lparr>targets := ts', coord := (if acked then after_ack (coord st) else coord st)\<rparr>))
      else None)"

datatype label = Coord | Pick nat | Drain nat

definition step :: "label \<Rightarrow> state \<Rightarrow> state option" where
  "step l st =
     (if crashed st then None
      else case l of Coord \<Rightarrow> coord_step st | Pick i \<Rightarrow> pick_step i st
        | Drain i \<Rightarrow> drain_step i st)"

fun run :: "label list \<Rightarrow> state \<Rightarrow> state option" where
  "run [] st = Some st"
| "run (l # ls) st = (case step l st of None \<Rightarrow> None | Some st' \<Rightarrow> run ls st')"

section \<open>Invariants and specification-level notions\<close>

text \<open>
  What holds of every sink in every reachable state: the flush-request channel is closed
  only after the queue was; the done signal is closed exactly on the error path and after
  exit; a worker that has exited leaves a closed, empty queue; the target reference is
  cleared only by the worker's own \<^verbatim>\<open>Close\<close>; an error is latched only with the done
  signal closed, and the error path is entered only with an error latched.
\<close>

definition sink_ok :: "sink \<Rightarrow> bool" where
  "sink_ok s \<longleftrightarrow>
     (flushers_closed s \<longrightarrow> c_closed s) \<and>
     (done_closed s \<longleftrightarrow> pc s \<in> {DErrClose, DSink, DExit}) \<and>
     (pc s = DExit \<longrightarrow> c_buf s = [] \<and> c_closed s) \<and>
     (writer s = None \<longrightarrow> pc s \<in> {DSink, DExit}) \<and>
     (err s \<noteq> None \<longrightarrow> done_closed s) \<and>
     (pc s = DErrClose \<longrightarrow> err s \<noteq> None)"

fun coord_sids :: "cpc \<Rightarrow> nat list" where
  "coord_sids CIdle = []"
| "coord_sids (CFlushNext todo) = todo"
| "coord_sids (CFlushSel sid todo) = sid # todo"
| "coord_sids (CFlushReg sid todo) = sid # todo"
| "coord_sids (CFlushMark sid f todo) = sid # todo"
| "coord_sids (CFlushWait sid f todo) = sid # todo"
| "coord_sids CDone = []"

text \<open>
  The registry maps each target to one sink and each sink to one target; a registered
  sink exists and its queue is open; the coordinator flushes registered sinks only.
\<close>

definition wf_state :: "state \<Rightarrow> bool" where
  "wf_state st \<longleftrightarrow>
     distinct (map fst (registry st)) \<and> distinct (map snd (registry st)) \<and>
     (\<forall>sid \<in> set (map snd (registry st)). sid < length (sinks st) \<and> \<not> c_closed (sinks st ! sid)) \<and>
     set (coord_sids (coord st)) \<subseteq> set (map snd (registry st)) \<and>
     (\<forall>s \<in> set (sinks st). sink_ok s)"

fun last_reg :: "call list \<Rightarrow> nat \<Rightarrow> bool" where
  "last_reg [] t = False"
| "last_reg (Add t' # h) t = (t' = t \<or> last_reg h t)"
| "last_reg (Remove t' # h) t = (t' \<noteq> t \<and> last_reg h t)"
| "last_reg (Close # h) t = False"
| "last_reg (c # h) t = last_reg h t"

definition registered :: "call list \<Rightarrow> nat \<Rightarrow> bool" where
  "registered cs t = last_reg (rev cs) t"

definition processed :: "call list \<Rightarrow> state \<Rightarrow> call list" where
  "processed cs st = take (length cs - length (pending st)) cs"

definition hist :: "call list \<Rightarrow> state \<Rightarrow> bool" where
  "hist cs st \<longleftrightarrow> (\<exists>h. cs = h @ pending st \<and> (\<forall>t. (map_of (registry st) t \<noteq> None) = registered h t))"

definition retired :: "nat \<Rightarrow> state \<Rightarrow> bool" where
  "retired sid st \<longleftrightarrow> sid < length (sinks st) \<and> sid \<notin> snd ` set (registry st) \<and> wf_state st"

definition discarded :: "nat \<Rightarrow> nat \<Rightarrow> sink" where
  "discarded t n = (new_sink t n)\<lparr>c_closed := True\<rparr>"











text \<open>The fields of a sink that only its own worker changes.\<close>

definition core :: "sink \<Rightarrow> nat option \<times> bool \<times> bool \<times> error option \<times> dpc \<times> nat" where
  "core s = (writer s, done_closed s, flushers_closed s, err s, pc s, c_cap s)"



text \<open>
  Two closeable targets for the examples: \<open>flaky\<close> fails its first write, \<open>bad_closer\<close>
  accepts every write and fails to close.
\<close>

definition flaky :: target where
  "flaky = \<lparr>tlog = [], script = [Some (ErrTarget 1)], closer = True,
     close_ret = Some (ErrTarget 2), close_calls = 0\<rparr>"


text \<open>The data buffers in a queue, without the gap markers.\<close>

definition data_items :: "item list \<Rightarrow> item list" where
  "data_items xs = filter (\<lambda>x. x \<noteq> None) xs"

text \<open>The buffers the producer submitted: the copies made by the \<^verbatim>\<open>Write\<close> calls.\<close>

definition submitted :: "call list \<Rightarrow> item set" where
  "submitted cs = {x. \<exists>d. x = Some d \<and> Write d \<in> set cs}"

definition items_ok :: "call list \<Rightarrow> sink \<Rightarrow> bool" where
  "items_ok cs s \<longleftrightarrow>
     (\<forall>x \<in> set (c_buf s). x = None \<or> x \<in> submitted cs) \<and>
     (\<forall>x. pc s = DWrite x \<longrightarrow> x \<in> submitted cs)"

definition logs_ok :: "call list \<Rightarrow> target list \<Rightarrow> target list \<Rightarrow> bool" where
  "logs_ok cs ts ts' \<longleftrightarrow>
     length ts' = length ts \<and>
     (\<forall>j < length ts. \<exists>new. tlog (ts' ! j) = tlog (ts ! j) @ new \<and> set new \<subseteq> submitted cs)"

definition delivery_inv :: "call list \<Rightarrow> target list \<Rightarrow> state \<Rightarrow> bool" where
  "delivery_inv cs ts st \<longleftrightarrow>
     set (pending st) \<subseteq> set cs \<and> (\<forall>s \<in> set (sinks st). items_ok cs s) \<and>
     logs_ok cs ts (targets st)"

text \<open>
  The scenario of \<^verbatim>\<open>TestAddRemove\<close>, with \<open>B\<close> as target 0, and the states of a sink
  that the scenario passes through. \<open>logged l\<close> is the \<^verbatim>\<open>bytes.Buffer\<close> that has
  received the writes \<open>l\<close>.
\<close>

definition scenario :: "call list" where
  "scenario = [Add 0, Write [1, 2, 3], Flush, Remove 0, Write [4, 5, 6], Flush,
     Add 0, Write [7, 8, 9], Flush, Close]"

definition logged :: "item list \<Rightarrow> target" where
  "logged l = buffer\<lparr>tlog := l\<rparr>"

definition alive :: "nat \<Rightarrow> sink \<Rightarrow> bool" where
  "alive n s \<longleftrightarrow> writer s = Some 0 \<and> c_cap s = n \<and> err s = None \<and> \<not> c_closed s
     \<and> \<not> done_closed s \<and> \<not> flushers_closed s"

text \<open>Just added: nothing queued, no flush pending, the worker at its receive.\<close>

definition fresh :: "nat \<Rightarrow> sink \<Rightarrow> bool" where
  "fresh n s \<longleftrightarrow> alive n s \<and> c_buf s = [] \<and> flushers s = [] \<and> pc s = DRange"

text \<open>
  After a flush: nothing queued, no flush pending, the worker at its receive or still in
  its loop over the flush requests.
\<close>

definition flushed :: "nat \<Rightarrow> sink \<Rightarrow> bool" where
  "flushed n s \<longleftrightarrow> alive n s \<and> c_buf s = [] \<and> flushers s = [] \<and> pc s \<in> {DFlushers, DRange}"

text \<open>
  One buffer \<open>d\<close> accepted after the log was \<open>L\<close>: it is queued, or taken and not yet
  written, or written.
\<close>

definition fed :: "nat \<Rightarrow> bytes \<Rightarrow> nat list \<Rightarrow> item list \<Rightarrow> item list \<Rightarrow> sink \<Rightarrow> bool" where
  "fed n d F L l s \<longleftrightarrow> alive n s \<and> flushers s = F \<and>
     ((c_buf s = [Some d] \<and> pc s = DRange \<and> l = L) \<or>
      (c_buf s = [] \<and> pc s = DWrite (Some d) \<and> l = L) \<or>
      (c_buf s = [] \<and> pc s = DRange \<and> l = L @ [Some d]))"

text \<open>The same with the flush marker queued behind the buffer, up to the acknowledgement.\<close>

definition marked :: "nat \<Rightarrow> bytes \<Rightarrow> nat \<Rightarrow> item list \<Rightarrow> item list \<Rightarrow> sink \<Rightarrow> bool" where
  "marked n d f L l s \<longleftrightarrow> alive n s \<and>
     ((flushers s = [f] \<and>
        ((c_buf s = [Some d, None] \<and> pc s = DRange \<and> l = L) \<or>
         (c_buf s = [None] \<and> pc s = DWrite (Some d) \<and> l = L) \<or>
         (c_buf s = [None] \<and> pc s = DRange \<and> l = L @ [Some d]) \<or>
         (c_buf s = [] \<and> pc s \<in> {DDiscard, DFlushers} \<and> l = L @ [Some d]))) \<or>
      (flushers s = [] \<and> c_buf s = [] \<and> pc s = DAck f \<and> l = L @ [Some d]))"

text \<open>Removed with nothing queued: the worker is about to exit or has exited.\<close>

definition dead :: "nat \<Rightarrow> sink \<Rightarrow> bool" where
  "dead n s \<longleftrightarrow> writer s = Some 0 \<and> c_cap s = n \<and> err s = None \<and> c_closed s
     \<and> c_buf s = [] \<and> flushers s = [] \<and>
     ((pc s \<in> {DFlushers, DRange} \<and> \<not> done_closed s \<and> \<not> flushers_closed s) \<or>
      (pc s = DExit \<and> done_closed s \<and> flushers_closed s))"

text \<open>
  One round of the scenario: target 0 is registered with the last sink, all sinks before
  it are dead, and the calls \<open>Write d; Flush\<close> are worked off; \<open>L\<close> is what the target
  had received before the round.
\<close>

definition round_base :: "nat \<Rightarrow> state \<Rightarrow> sink list \<Rightarrow> sink \<Rightarrow> item list \<Rightarrow> bool" where
  "round_base n st pre s l \<longleftrightarrow> \<not> crashed st \<and> bufsPerSink st = n \<and> sinks st = pre @ [s]
     \<and> (\<forall>x \<in> set pre. dead n x) \<and> registry st = [(0, length pre)] \<and> targets st = [logged l]"

definition r_added :: "nat \<Rightarrow> bytes \<Rightarrow> item list \<Rightarrow> call list \<Rightarrow> state \<Rightarrow> bool" where
  "r_added n d L tail st \<longleftrightarrow> (\<exists>pre s. round_base n st pre s L
     \<and> pending st = Write d # Flush # tail \<and> coord st = CIdle \<and> fresh n s)"

definition r_written :: "nat \<Rightarrow> bytes \<Rightarrow> item list \<Rightarrow> call list \<Rightarrow> state \<Rightarrow> bool" where
  "r_written n d L tail st \<longleftrightarrow> (\<exists>pre s l. round_base n st pre s l
     \<and> pending st = Flush # tail \<and> coord st = CIdle \<and> fed n d [] L l s)"

definition r_flushing :: "nat \<Rightarrow> bytes \<Rightarrow> item list \<Rightarrow> call list \<Rightarrow> state \<Rightarrow> bool" where
  "r_flushing n d L tail st \<longleftrightarrow> (\<exists>pre s l. round_base n st pre s l \<and> pending st = tail \<and>
     ((coord st \<in> {CFlushNext [length pre], CFlushSel (length pre) [], CFlushReg (length pre) []}
         \<and> fed n d [] L l s) \<or>
      (\<exists>f. coord st = CFlushMark (length pre) f [] \<and> fed n d [f] L l s) \<or>
      (\<exists>f. coord st = CFlushWait (length pre) f [] \<and> marked n d f L l s) \<or>
      (coord st = CFlushNext [] \<and> flushed n s \<and> l = L @ [Some d])))"

definition r_flushed :: "nat \<Rightarrow> bytes \<Rightarrow> item list \<Rightarrow> call list \<Rightarrow> state \<Rightarrow> bool" where
  "r_flushed n d L tail st \<longleftrightarrow> (\<exists>pre s. round_base n st pre s (L @ [Some d])
     \<and> pending st = tail \<and> coord st = CIdle \<and> flushed n s)"

text \<open>Between the rounds and at the end: nothing is registered and every sink is dead.\<close>

definition all_dead :: "nat \<Rightarrow> item list \<Rightarrow> state \<Rightarrow> bool" where
  "all_dead n l st \<longleftrightarrow> \<not> crashed st \<and> bufsPerSink st = n \<and> registry st = []
     \<and> (\<forall>x \<in> set (sinks st). dead n x) \<and> targets st = [logged l]"

definition g_idle :: "nat \<Rightarrow> item list \<Rightarrow> call list \<Rightarrow> state \<Rightarrow> bool" where
  "g_idle n l p st \<longleftrightarrow> all_dead n l st \<and> pending st = p \<and> coord st = CIdle"

definition g_flush :: "nat \<Rightarrow> item list \<Rightarrow> call list \<Rightarrow> state \<Rightarrow> bool" where
  "g_flush n l p st \<longleftrightarrow> all_dead n l st \<and> pending st = p \<and> coord st = CFlushNext []"

definition finished :: "nat \<Rightarrow> item list \<Rightarrow> state \<Rightarrow> bool" where
  "finished n l st \<longleftrightarrow> all_dead n l st \<and> pending st = [] \<and> coord st = CDone"

definition in_round :: "nat \<Rightarrow> bytes \<Rightarrow> item list \<Rightarrow> call list \<Rightarrow> state \<Rightarrow> bool" where
  "in_round n d L tail st \<longleftrightarrow> r_added n d L tail st \<or> r_written n d L tail st
     \<or> r_flushing n d L tail st \<or> r_flushed n d L tail st"

text \<open>The states the scenario passes through, at queue depth \<open>n\<close>.\<close>

definition scen_inv :: "nat \<Rightarrow> state \<Rightarrow> bool" where
  "scen_inv n st \<longleftrightarrow>
     g_idle n [] scenario st
     \<or> in_round n [1, 2, 3] []
          [Remove 0, Write [4, 5, 6], Flush, Add 0, Write [7, 8, 9], Flush, Close] st
     \<or> g_idle n [Some [1, 2, 3]] [Write [4, 5, 6], Flush, Add 0, Write [7, 8, 9], Flush, Close] st
     \<or> g_idle n [Some [1, 2, 3]] [Flush, Add 0, Write [7, 8, 9], Flush, Close] st
     \<or> g_flush n [Some [1, 2, 3]] [Add 0, Write [7, 8, 9], Flush, Close] st
     \<or> g_idle n [Some [1, 2, 3]] [Add 0, Write [7, 8, 9], Flush, Close] st
     \<or> in_round n [7, 8, 9] [Some [1, 2, 3]] [Close] st
     \<or> finished n [Some [1, 2, 3], Some [7, 8, 9]] st"

text \<open>A schedule under which the scenario runs to the end, and one on which the second
  flush of \<^verbatim>\<open>Add(B); Flush(); Write([1]); Flush()\<close> returns early.\<close>

definition scenario_schedule :: "label list" where
  "scenario_schedule =
     [Coord, Coord, Coord, Pick 0, Coord, Coord, Coord,
      Drain 0, Drain 0, Drain 0, Drain 0, Drain 0, Drain 0,
      Coord, Coord, Coord, Coord, Coord,
      Coord, Coord, Coord, Pick 1, Coord, Coord, Coord,
      Drain 1, Drain 1, Drain 1, Drain 1, Drain 1, Drain 1,
      Coord, Coord]"

definition early_flush_schedule :: "label list" where
  "early_flush_schedule =
     [Coord, Coord, Pick 0, Coord, Coord, Coord,
      Drain 0, Drain 0, Drain 0, Drain 0,
      Coord, Coord, Coord, Pick 0, Coord, Coord,
      Drain 0, Coord, Drain 0, Coord]"

text \<open>
  \<^verbatim>\<open>sink.Write\<close> is two actions of the calling goroutine: the \<^verbatim>\<open>select\<close> on
  \<^verbatim>\<open>s.done\<close> at its head, and, when that finds the signal open, the rest of the function.
  \<open>sink_Write_send\<close> is the rest: what a call that has passed the check does when it
  goes on, whatever has happened to the sink in between.
\<close>

definition sink_Write_send :: "sink \<Rightarrow> item \<Rightarrow> (sink \<times> nat \<times> error option) option" where
  "sink_Write_send s b =
     (if c_closed s then None
      else if c_cap s > 1 \<and> chan_len s + 1 = c_cap s
        then Some (s\<lparr>c_buf := c_buf s @ [None]\<rparr>, item_len b, None)
      else if can_send s
        then Some (s\<lparr>c_buf := c_buf s @ [b]\<rparr>, item_len b, None)
      else Some (s, item_len b, None))"

text \<open>
  \<^verbatim>\<open>sink.Close\<close> likewise: after \<^verbatim>\<open><-s.done\<close> the caller reads \<^verbatim>\<open>s.Writer\<close> and
  tests it for \<^verbatim>\<open>io.Closer\<close> (\<open>sink_Close_read\<close>); holding a closeable target \<open>t\<close> in its
  local variable \<^verbatim>\<open>w\<close>, it then calls \<^verbatim>\<open>w.Close()\<close>, latches the error if none is
  latched, clears \<^verbatim>\<open>s.Writer\<close> and returns \<^verbatim>\<open>s.err\<close> (\<open>sink_Close_finish\<close>).
\<close>

datatype cread = CBlocked | CNoCloser | CHolds nat

definition sink_Close_read :: "sink \<Rightarrow> target list \<Rightarrow> cread" where
  "sink_Close_read s ts =
     (if \<not> done_closed s then CBlocked
      else case writer s of
        None \<Rightarrow> CNoCloser
      | Some t \<Rightarrow> if t < length ts \<and> closer (ts ! t) then CHolds t else CNoCloser)"

definition sink_Close_finish :: "nat \<Rightarrow> sink \<Rightarrow> target list \<Rightarrow> sink \<times> target list \<times> error option" where
  "sink_Close_finish t s ts =
     (let (tg, e) = target_Close (ts ! t);
          s' = s\<lparr>err := (if err s = None then e else err s), writer := None\<rparr>
      in (s', ts[t := tg], err s'))"

text \<open>
  The actions that goroutines perform on one sink, each as one step:
  \<open>Worker\<close> a step of the sink's \<^verbatim>\<open>drain\<close> goroutine;
  \<open>WriteCall b\<close> a call \<^verbatim>\<open>sink.Write(b)\<close> that starts now;
  \<open>WriteSend b\<close> the second half of a call \<^verbatim>\<open>sink.Write(b)\<close> whose check of
  \<^verbatim>\<open>s.done\<close> was made earlier;
  \<open>FlushReg f\<close> and \<open>FlushMark\<close> the two sends of a \<^verbatim>\<open>sink.Flush\<close> whose check was made
  earlier; \<open>CloseQueue\<close> is \<^verbatim>\<open>close(s.c)\<close>;
  \<open>HandleClose\<close> a call of \<^verbatim>\<open>Close\<close> on the sink handle that runs from its read of
  \<^verbatim>\<open>s.Writer\<close> to its return with no other \<^verbatim>\<open>Close\<close> of the sink in between.
  A step that blocks or panics gives \<open>None\<close>; otherwise the new sink, the new targets
  and what \<^verbatim>\<open>Close\<close> returned, if it was one.
\<close>

datatype sop = Worker | WriteCall item | WriteSend item | FlushReg nat | FlushMark
  | CloseQueue | HandleClose

definition sop_step :: "sop \<Rightarrow> sink \<times> target list \<Rightarrow> (sink \<times> target list \<times> error option list) option" where
  "sop_step a c =
     (let s = fst c; ts = snd c in
      case a of
        Worker \<Rightarrow>
          (case drain_local s ts None of
             DNext s' ts' acked \<Rightarrow> Some (s', ts', [])
           | _ \<Rightarrow> None)
      | WriteCall b \<Rightarrow>
          (case sink_Write s b of
             None \<Rightarrow> None
           | Some (s', k, e) \<Rightarrow> Some (s', ts, []))
      | WriteSend b \<Rightarrow>
          (case sink_Write_send s b of
             None \<Rightarrow> None
           | Some (s', k, e) \<Rightarrow> Some (s', ts, []))
      | FlushReg f \<Rightarrow>
          (if flushers_closed s \<or> \<not> length (flushers s) < 1 then None
           else Some (s\<lparr>flushers := flushers s @ [f]\<rparr>, ts, []))
      | FlushMark \<Rightarrow>
          (if c_closed s \<or> \<not> can_send s then None
           else Some (s\<lparr>c_buf := c_buf s @ [None]\<rparr>, ts, []))
      | CloseQueue \<Rightarrow>
          (if c_closed s then None else Some (s\<lparr>c_closed := True\<rparr>, ts, []))
      | HandleClose \<Rightarrow>
          (case sink_Close s ts of
             None \<Rightarrow> None
           | Some (s', ts', e) \<Rightarrow> Some (s', ts', [e])))"

text \<open>A sequence of such actions, with the values returned by the \<^verbatim>\<open>Close\<close> calls in it.\<close>

fun sop_run :: "sop list \<Rightarrow> sink \<times> target list \<Rightarrow> (sink \<times> target list \<times> error option list) option" where
  "sop_run [] c = Some (fst c, snd c, [])"
| "sop_run (a # as) c =
     (case sop_step a c of
        None \<Rightarrow> None
      | Some (s1, ts1, r1) \<Rightarrow>
          (case sop_run as (s1, ts1) of
             None \<Rightarrow> None
           | Some (s2, ts2, r2) \<Rightarrow> Some (s2, ts2, r1 @ r2)))"

text \<open>The buffers carried by the second halves of writes in a sequence of actions.\<close>

fun sends :: "sop list \<Rightarrow> item list" where
  "sends [] = []"
| "sends (WriteSend b # as) = b # sends as"
| "sends (a # as) = sends as"

text \<open>The worker of a sink running alone for up to \<open>k\<close> steps, as long as it can move.\<close>

fun work :: "nat \<Rightarrow> sink \<times> target list \<Rightarrow> sink \<times> target list" where
  "work 0 c = c"
| "work (Suc k) c =
     (case sop_step Worker c of
        None \<Rightarrow> c
      | Some (s', ts', r) \<Rightarrow> work k (s', ts'))"

text \<open>What holds of a sink from the moment its done signal is closed.\<close>

definition term_ok :: "sink \<Rightarrow> bool" where
  "term_ok s \<longleftrightarrow>
     done_closed s \<and> pc s \<in> {DErrClose, DSink, DExit} \<and>
     (pc s = DExit \<longrightarrow> c_buf s = [] \<and> c_closed s) \<and>
     (pc s = DErrClose \<longrightarrow> err s \<noteq> None)"



text \<open>The number of \<^verbatim>\<open>Close\<close> calls on the handle in a sequence of actions.\<close>

definition closes :: "sop list \<Rightarrow> nat" where
  "closes as = length (filter (\<lambda>a. a = HandleClose) as)"

section \<open>Basic facts\<close>

lemma run_append: "run (xs @ ys) st = (case run xs st of None \<Rightarrow> None | Some st' \<Rightarrow> run ys st')"
  by (induction xs arbitrary: st) (auto split: option.splits)

lemma run_invariant:
  assumes "run ls st0 = Some st" and "P st0"
    and "\<And>l a b. P a \<Longrightarrow> step l a = Some b \<Longrightarrow> P b"
  shows "P st"
  using assms(1,2)
proof (induction ls arbitrary: st0)
  case Nil
  then show ?case by simp
next
  case (Cons l ls)
  then show ?case using assms(3) by (auto split: option.splits)
qed

lemma crash_simps [simp]:
  "sinks (crash st) = sinks st" "registry (crash st) = registry st"
  "targets (crash st) = targets st" "pending (crash st) = pending st"
  "coord (crash st) = coord st" "rets (crash st) = rets st" "crashed (crash st)"
  "bufsPerSink (crash st) = bufsPerSink st" "next_f (crash st) = next_f st"
  by (simp_all add: crash_def)

lemma upd_sink_simps [simp]:
  "sinks (upd_sink i s st) = (sinks st)[i := s]" "registry (upd_sink i s st) = registry st"
  "targets (upd_sink i s st) = targets st" "pending (upd_sink i s st) = pending st"
  "coord (upd_sink i s st) = coord st" "rets (upd_sink i s st) = rets st"
  "crashed (upd_sink i s st) = crashed st"
  "bufsPerSink (upd_sink i s st) = bufsPerSink st" "next_f (upd_sink i s st) = next_f st"
  by (simp_all add: upd_sink_def)

lemma close_c_frame [simp]:
  "registry (close_c i st) = registry st"
  "targets (close_c i st) = targets st" "pending (close_c i st) = pending st"
  "coord (close_c i st) = coord st" "rets (close_c i st) = rets st"
  "bufsPerSink (close_c i st) = bufsPerSink st" "next_f (close_c i st) = next_f st"
  "length (sinks (close_c i st)) = length (sinks st)"
  by (simp_all add: close_c_def)

lemma close_c_nth:
  "j < length (sinks st) \<Longrightarrow> sinks (close_c i st) ! j =
     (if j = i \<and> \<not> c_closed (sinks st ! i) then (sinks st ! i)\<lparr>c_closed := True\<rparr> else sinks st ! j)"
  by (auto simp: close_c_def)

lemma fan_out_frame0:
  "registry (fan_out is b st) = registry st \<and>
   targets (fan_out is b st) = targets st \<and> pending (fan_out is b st) = pending st \<and>
   coord (fan_out is b st) = coord st \<and> rets (fan_out is b st) = rets st \<and>
   bufsPerSink (fan_out is b st) = bufsPerSink st \<and> next_f (fan_out is b st) = next_f st \<and>
   length (sinks (fan_out is b st)) = length (sinks st)"
  by (induction "is" b st rule: fan_out.induct) (auto split: option.splits)

lemma fan_out_frame [simp]:
  "registry (fan_out is b st) = registry st"
  "targets (fan_out is b st) = targets st" "pending (fan_out is b st) = pending st"
  "coord (fan_out is b st) = coord st" "rets (fan_out is b st) = rets st"
  "bufsPerSink (fan_out is b st) = bufsPerSink st" "next_f (fan_out is b st) = next_f st"
  "length (sinks (fan_out is b st)) = length (sinks st)"
  using fan_out_frame0 [of "is" b st] by simp_all

lemma fan_out_other:
  "i \<notin> set is \<Longrightarrow> sinks (fan_out is b st) ! i = sinks st ! i"
  by (induction "is" b st rule: fan_out.induct) (auto split: option.splits)

lemma close_all_frame0:
  "registry (close_all is st) = registry st \<and>
   targets (close_all is st) = targets st \<and> pending (close_all is st) = pending st \<and>
   coord (close_all is st) = coord st \<and> rets (close_all is st) = rets st \<and>
   bufsPerSink (close_all is st) = bufsPerSink st \<and> next_f (close_all is st) = next_f st \<and>
   length (sinks (close_all is st)) = length (sinks st)"
  by (induction "is" st rule: close_all.induct) auto

lemma close_all_frame [simp]:
  "registry (close_all is st) = registry st"
  "targets (close_all is st) = targets st" "pending (close_all is st) = pending st"
  "coord (close_all is st) = coord st" "rets (close_all is st) = rets st"
  "bufsPerSink (close_all is st) = bufsPerSink st" "next_f (close_all is st) = next_f st"
  "length (sinks (close_all is st)) = length (sinks st)"
  using close_all_frame0 [of "is" st] by simp_all

lemma close_all_other:
  "i \<notin> set is \<Longrightarrow> sinks (close_all is st) ! i = sinks st ! i"
  by (induction "is" st rule: close_all.induct) (auto simp: close_c_def)

lemma wf_init: "wf_state (init n ts cs)"
  by (simp add: wf_state_def init_def)

lemma sink_ok_new: "sink_ok (new_sink t n)"
  by (simp add: sink_ok_def new_sink_def)

lemma sink_ok_Write: "sink_ok s \<Longrightarrow> sink_Write s b = Some (s', k, e) \<Longrightarrow> sink_ok s'"
  by (auto simp: sink_ok_def sink_Write_def split: if_splits)

lemma sink_Write_closed: "sink_Write s b = Some (s', k, e) \<Longrightarrow> c_closed s' = c_closed s"
  by (auto simp: sink_Write_def split: if_splits)

lemma fan_out_ok:
  "\<forall>s \<in> set (sinks st). sink_ok s \<Longrightarrow> \<forall>s \<in> set (sinks (fan_out is b st)). sink_ok s"
proof (induction "is" b st rule: fan_out.induct)
  case (1 b st)
  then show ?case by simp
next
  case (2 sid rest b st)
  show ?case
  proof (cases "sid < length (sinks st)")
    case False
    with 2 show ?thesis by simp
  next
    case True
    show ?thesis
    proof (cases "sink_Write (sinks st ! sid) b")
      case None
      with True 2 show ?thesis by simp
    next
      case (Some r)
      obtain s' k e where r: "r = (s', k, e)" by (cases r)
      have "sink_ok s'" using sink_ok_Write [of "sinks st ! sid" b s' k e] Some r True 2(2) by simp
      then have "\<forall>s\<in>set (sinks (st\<lparr>sinks := (sinks st)[sid := s']\<rparr>)). sink_ok s"
        using 2(2) by (auto dest!: subsetD [OF set_update_subset_insert])
      with 2(1) [OF True Some] r have "\<forall>s\<in>set (sinks (fan_out rest b (st\<lparr>sinks := (sinks st)[sid := s']\<rparr>))). sink_ok s"
        by simp
      with True Some r show ?thesis by simp
    qed
  qed
qed

lemma fan_out_closed:
  "i < length (sinks st) \<Longrightarrow> c_closed (sinks (fan_out is b st) ! i) = c_closed (sinks st ! i)"
proof (induction "is" b st rule: fan_out.induct)
  case (1 b st)
  then show ?case by simp
next
  case (2 sid rest b st)
  then show ?case
    by (auto split: option.splits if_splits simp: nth_list_update dest: sink_Write_closed)
qed

lemma map_of_None_fst: "map_of r t = None \<Longrightarrow> t \<notin> fst ` set r"
  by (simp add: map_of_eq_None_iff)

lemma map_of_Some_snd: "map_of r t = Some v \<Longrightarrow> v \<in> snd ` set r"
  by (metis map_of_SomeD snd_conv image_eqI)

lemma distinct_snd_filter:
  "distinct (map snd r) \<Longrightarrow> distinct (map snd (filter P r))"
  by (induction r) auto

lemma distinct_fst_filter:
  "distinct (map fst r) \<Longrightarrow> distinct (map fst (filter P r))"
  by (induction r) auto

lemma removed_sid_gone:
  assumes "distinct (map fst r)" "distinct (map snd r)" "map_of r t = Some sid"
  shows "sid \<notin> snd ` set (filter (\<lambda>kv. fst kv \<noteq> t) r)"
proof
  assume "sid \<in> snd ` set (filter (\<lambda>kv. fst kv \<noteq> t) r)"
  then obtain t' where a: "(t', sid) \<in> set r" "t' \<noteq> t" by auto
  have b: "(t, sid) \<in> set r" using assms(3) by (rule map_of_SomeD)
  from assms(2) a b show False
    by (metis distinct_map inj_on_def prod.collapse snd_conv prod.inject)
qed

lemma sink_ok_close: "sink_ok s \<Longrightarrow> sink_ok (s\<lparr>c_closed := True\<rparr>)"
  by (auto simp: sink_ok_def)

lemma new_sink_open [simp]: "\<not> c_closed (new_sink t n)"
  by (simp add: new_sink_def)

lemma close_c_ok:
  "\<forall>s \<in> set (sinks st). sink_ok s \<Longrightarrow> \<forall>s \<in> set (sinks (close_c i st)). sink_ok s"
  by (auto simp: close_c_def sink_ok_close dest!: subsetD [OF set_update_subset_insert])

lemma close_all_ok:
  "\<forall>s \<in> set (sinks st). sink_ok s \<Longrightarrow> \<forall>s \<in> set (sinks (close_all is st)). sink_ok s"
  by (induction "is" st rule: close_all.induct) (auto dest: close_c_ok)

lemma wf_pending [simp]: "wf_state (st\<lparr>pending := cs\<rparr>) = wf_state st"
  by (simp add: wf_state_def)

lemma wf_dispatch:
  assumes "wf_state st" "coord st = CIdle"
  shows "wf_state (dispatch c st)"
proof (cases c)
  case (Add t)
  show ?thesis
  proof (cases "map_of (registry st) t")
    case None
    then have "t \<notin> fst ` set (registry st)" by (rule map_of_None_fst)
    moreover have "length (sinks st) \<notin> snd ` set (registry st)"
      using assms(1) by (auto simp: wf_state_def)
    ultimately show ?thesis using assms None Add
      by (auto simp: wf_state_def Let_def nth_append sink_ok_new)
  next
    case (Some old)
    then show ?thesis using assms Add
      by (auto simp: wf_state_def Let_def nth_append sink_ok_new close_c_def sink_ok_close)
  qed
next
  case (Remove t)
  show ?thesis
  proof (cases "map_of (registry st) t")
    case None
    then show ?thesis using assms Remove by (auto simp: wf_state_def)
  next
    case (Some sid)
    have gone: "sid \<notin> snd ` set (filter (\<lambda>kv. fst kv \<noteq> t) (registry st))"
      using assms(1) Some by (intro removed_sid_gone) (auto simp: wf_state_def)
    have ok: "\<forall>s \<in> set (sinks (close_c sid st)). sink_ok s"
      using assms(1) by (intro close_c_ok) (auto simp: wf_state_def)
    have "\<forall>i \<in> snd ` set (filter (\<lambda>kv. fst kv \<noteq> t) (registry st)).
            i < length (sinks st) \<and> \<not> c_closed (sinks (close_c sid st) ! i)"
    proof
      fix i assume i: "i \<in> snd ` set (filter (\<lambda>kv. fst kv \<noteq> t) (registry st))"
      then have "i \<noteq> sid" using gone by auto
      moreover have "i \<in> set (map snd (registry st))" using i by auto
      then have "i < length (sinks st) \<and> \<not> c_closed (sinks st ! i)"
        using assms(1) unfolding wf_state_def by blast
      ultimately show "i < length (sinks st) \<and> \<not> c_closed (sinks (close_c sid st) ! i)"
        by (simp add: close_c_nth)
    qed
    then show ?thesis using assms Remove Some ok
      by (auto simp: wf_state_def distinct_snd_filter distinct_fst_filter)
  qed
next
  case (Write d)
  then show ?thesis using assms
    by (auto simp: wf_state_def fan_out_ok fan_out_closed)
next
  case Flush
  then show ?thesis using assms by (auto simp: wf_state_def)
next
  case Close
  then show ?thesis using assms by (auto simp: wf_state_def close_all_ok)
qed

lemma all_sinks_update:
  "\<forall>s \<in> set xs. sink_ok s \<Longrightarrow> sink_ok s' \<Longrightarrow> \<forall>s \<in> set (xs[i := s']). sink_ok s"
  by (auto dest!: subsetD [OF set_update_subset_insert])

lemma wf_frame:
  assumes "wf_state st" "registry st' = registry st" "sinks st' = sinks st"
    "set (coord_sids (coord st')) \<subseteq> set (coord_sids (coord st))"
  shows "wf_state st'"
  using assms unfolding wf_state_def by (simp; blast)

lemma wf_upd:
  assumes "wf_state st" "sink_ok s'" "c_closed s' \<longrightarrow> c_closed (sinks st ! i)"
  shows "wf_state (upd_sink i s' st)"
proof -
  have "\<forall>sid \<in> set (map snd (registry st)). sid < length (sinks st) \<and> \<not> c_closed ((sinks st)[i := s'] ! sid)"
  proof
    fix sid assume "sid \<in> set (map snd (registry st))"
    then have "sid < length (sinks st) \<and> \<not> c_closed (sinks st ! sid)"
      using assms(1) unfolding wf_state_def by blast
    then show "sid < length (sinks st) \<and> \<not> c_closed ((sinks st)[i := s'] ! sid)"
      using assms(3) by (cases "sid = i") auto
  qed
  moreover have "\<forall>s \<in> set ((sinks st)[i := s']). sink_ok s"
    using assms(1,2) by (intro all_sinks_update) (auto simp: wf_state_def)
  ultimately show ?thesis using assms(1) unfolding wf_state_def by simp
qed

lemma wf_sink_ok: "wf_state st \<Longrightarrow> i < length (sinks st) \<Longrightarrow> sink_ok (sinks st ! i)"
  by (simp add: wf_state_def)

lemma wf_coord_step:
  assumes "wf_state st" "coord_step st = Some st'"
  shows "wf_state st'"
proof (cases "coord st")
  case CIdle
  then show ?thesis using assms wf_dispatch [OF assms(1) CIdle]
    by (auto simp: coord_step_def split: list.splits)
next
  case (CFlushNext todo)
  then have "st' = st\<lparr>coord := CIdle, rets := rets st @ [RFlush]\<rparr>"
    using assms(2) by (auto simp: coord_step_def split: if_splits)
  then show ?thesis using assms(1) by (auto intro: wf_frame)
next
  case (CFlushSel sid todo)
  then have "st' = st\<lparr>coord := CFlushNext todo\<rparr> \<or> st' = st\<lparr>coord := CFlushReg sid todo\<rparr>
      \<or> st' = crash st"
    using assms(2) by (auto simp: coord_step_def split: if_splits)
  then show ?thesis using assms(1) CFlushSel by (auto intro!: wf_frame [OF assms(1)])
next
  case (CFlushReg sid todo)
  let ?s = "sinks st ! sid"
  let ?s' = "?s\<lparr>flushers := flushers ?s @ [next_f st]\<rparr>"
  have c: "st' = crash st \<or> (sid < length (sinks st) \<and>
      st' = (upd_sink sid ?s' st)\<lparr>coord := CFlushMark sid (next_f st) todo, next_f := Suc (next_f st)\<rparr>)"
    using assms(2) CFlushReg by (auto simp: coord_step_def Let_def split: if_splits)
  show ?thesis
  proof (cases "st' = crash st")
    case True
    then show ?thesis using assms(1) by (auto intro!: wf_frame [OF assms(1)])
  next
    case False
    with c have v: "sid < length (sinks st)" and
      e: "st' = (upd_sink sid ?s' st)\<lparr>coord := CFlushMark sid (next_f st) todo, next_f := Suc (next_f st)\<rparr>"
      by auto
    have "sink_ok ?s'" using wf_sink_ok [OF assms(1) v] by (auto simp: sink_ok_def)
    then have "wf_state (upd_sink sid ?s' st)" using assms(1) by (intro wf_upd) auto
    then show ?thesis using e CFlushReg by (auto intro: wf_frame)
  qed
next
  case (CFlushMark sid f todo)
  let ?s = "sinks st ! sid"
  let ?s' = "?s\<lparr>c_buf := c_buf ?s @ [None]\<rparr>"
  have c: "st' = crash st \<or> (sid < length (sinks st) \<and> \<not> c_closed ?s \<and>
      st' = (upd_sink sid ?s' st)\<lparr>coord := CFlushWait sid f todo\<rparr>)"
    using assms(2) CFlushMark by (auto simp: coord_step_def Let_def split: if_splits)
  show ?thesis
  proof (cases "st' = crash st")
    case True
    then show ?thesis using assms(1) by (auto intro!: wf_frame [OF assms(1)])
  next
    case False
    with c have v: "sid < length (sinks st)" "\<not> c_closed ?s" and
      e: "st' = (upd_sink sid ?s' st)\<lparr>coord := CFlushWait sid f todo\<rparr>"
      by auto
    have "sink_ok ?s'" using wf_sink_ok [OF assms(1) v(1)] v(2) by (auto simp: sink_ok_def)
    then have "wf_state (upd_sink sid ?s' st)" using assms(1) by (intro wf_upd) auto
    then show ?thesis using e CFlushMark by (auto intro: wf_frame)
  qed
next
  case (CFlushWait sid f todo)
  then show ?thesis using assms by (simp add: coord_step_def)
next
  case CDone
  then show ?thesis using assms by (simp add: coord_step_def)
qed

lemma wf_pick_step:
  assumes "wf_state st" "pick_step i st = Some st'"
  shows "wf_state st'"
proof -
  obtain todo where c: "coord st = CFlushNext todo" "i \<in> set todo"
      "st' = st\<lparr>coord := CFlushSel i (remove1 i todo)\<rparr>"
    using assms(2) by (auto simp: pick_step_def split: cpc.splits if_splits)
  have "set (remove1 i todo) \<subseteq> set todo" by (rule set_remove1_subset)
  then show ?thesis using c by (auto intro!: wf_frame [OF assms(1)])
qed

lemma sink_Close_ok:
  "sink_ok s \<Longrightarrow> sink_Close s ts = Some (s', ts', e) \<Longrightarrow> pc s = DErrClose \<Longrightarrow> sink_ok (s'\<lparr>pc := DSink\<rparr>)"
  by (auto simp: sink_ok_def sink_Close_def target_Close_def Let_def split: if_splits option.splits)

lemma sink_Close_closed:
  "sink_Close s ts = Some (s', ts', e) \<Longrightarrow> c_closed s' = c_closed s"
  by (auto simp: sink_Close_def target_Close_def Let_def split: if_splits option.splits)

lemma drain_local_ok:
  assumes "drain_local s ts w = DNext s' ts' a" "sink_ok s"
  shows "sink_ok s'"
proof (cases "pc s")
  case DErrClose
  then show ?thesis using assms
    by (auto simp: drain_local_def split: option.splits dest: sink_Close_ok)
next
  case (DWrite x)
  then show ?thesis using assms
    by (auto simp: drain_local_def sink_ok_def Let_def split: option.splits if_splits prod.splits)
qed (use assms in \<open>auto simp: drain_local_def sink_ok_def split: list.splits if_splits\<close>)

lemma drain_local_closed:
  assumes "drain_local s ts w = DNext s' ts' a"
  shows "c_closed s' = c_closed s"
  using assms
  by (cases "pc s")
     (auto simp: drain_local_def Let_def split: list.splits option.splits if_splits prod.splits
           dest: sink_Close_closed)

lemma after_ack_sids: "set (coord_sids (after_ack c)) \<subseteq> set (coord_sids c)"
  by (cases c) auto

lemma wf_drain_step:
  assumes "wf_state st" "drain_step i st = Some st'"
  shows "wf_state st'"
proof -
  have v: "i < length (sinks st)" using assms(2) by (auto simp: drain_step_def split: if_splits)
  show ?thesis
  proof (cases "drain_local (sinks st ! i) (targets st) (waiting_on (coord st))")
    case DBlocked
    then show ?thesis using assms(2) v by (simp add: drain_step_def)
  next
    case DPanic
    then have "st' = crash st" using assms(2) v by (simp add: drain_step_def)
    then show ?thesis by (auto intro!: wf_frame [OF assms(1)])
  next
    case (DNext s' ts' a)
    then have e: "st' = (upd_sink i s' st)\<lparr>targets := ts', coord := (if a then after_ack (coord st) else coord st)\<rparr>"
      using assms(2) v by (simp add: drain_step_def)
    have "sink_ok s'" using drain_local_ok [OF DNext] wf_sink_ok [OF assms(1) v] by simp
    moreover have "c_closed s' = c_closed (sinks st ! i)" using drain_local_closed [OF DNext] .
    ultimately have w: "wf_state (upd_sink i s' st)" using assms(1) by (intro wf_upd) auto
    show ?thesis unfolding e
      by (rule wf_frame [OF w]) (use after_ack_sids [of "coord st"] in auto)
  qed
qed

lemma wf_step:
  assumes "wf_state st" "step l st = Some st'"
  shows "wf_state st'"
proof (cases l)
  case Coord
  then show ?thesis using assms by (auto simp: step_def split: if_splits intro: wf_coord_step)
next
  case (Pick i)
  then show ?thesis using assms by (auto simp: step_def split: if_splits intro: wf_pick_step)
next
  case (Drain i)
  then show ?thesis using assms by (auto simp: step_def split: if_splits intro: wf_drain_step)
qed

lemma wf_reachable:
  assumes "run ls (init n ts cs) = Some st"
  shows "wf_state st"
  using assms wf_init
proof (rule run_invariant)
  fix l a b assume "wf_state a" "step l a = Some b"
  then show "wf_state b" by (rule wf_step)
qed

lemma hist_init: "hist cs (init n ts cs)"
  by (simp add: hist_def init_def registered_def)

lemma map_of_filter_fst:
  "map_of (filter (\<lambda>kv. fst kv \<noteq> t) r) t' = (if t' = t then None else map_of r t')"
  by (induction r) auto

lemma registry_dispatch:
  "map_of (registry (dispatch c st)) t =
     (case c of
        Add t' \<Rightarrow> (if t' = t \<and> map_of (registry st) t = None then Some (length (sinks st))
                     else map_of (registry st) t)
      | Remove t' \<Rightarrow> (if t' = t then None else map_of (registry st) t)
      | Close \<Rightarrow> None
      | _ \<Rightarrow> map_of (registry st) t)"
  by (cases c) (auto simp: Let_def map_of_filter_fst map_add_def split: option.splits)

lemma pending_dispatch [simp]: "pending (dispatch c st) = pending st"
  by (cases c) (auto simp: Let_def split: option.splits)

lemma hist_coord_step:
  assumes "hist cs st" "coord_step st = Some st'"
  shows "hist cs st'"
proof (cases "coord st = CIdle")
  case True
  then obtain c rest where p: "pending st = c # rest" "st' = (dispatch c st)\<lparr>pending := rest\<rparr>"
    using assms(2) by (auto simp: coord_step_def split: list.splits)
  obtain h where h: "cs = h @ c # rest" "\<forall>t. (map_of (registry st) t \<noteq> None) = registered h t"
    using assms(1) p by (auto simp: hist_def)
  have "\<forall>t. (map_of (registry st') t \<noteq> None) = registered (h @ [c]) t"
    using h(2) p(2) by (cases c) (auto simp: registry_dispatch registered_def simp del: dispatch.simps)
  then show ?thesis using h(1) p unfolding hist_def
    by (intro exI [where x = "h @ [c]"]) simp
next
  case False
  then have "pending st' = pending st \<and> registry st' = registry st"
    using assms(2) by (cases "coord st") (auto simp: coord_step_def Let_def split: if_splits)
  then show ?thesis using assms(1) by (simp add: hist_def)
qed

lemma hist_step:
  assumes "hist cs st" "step l st = Some st'"
  shows "hist cs st'"
proof (cases l)
  case Coord
  then show ?thesis using assms by (auto simp: step_def split: if_splits intro: hist_coord_step)
next
  case (Pick i)
  then have "pending st' = pending st \<and> registry st' = registry st"
    using assms(2) by (auto simp: step_def pick_step_def split: if_splits cpc.splits)
  then show ?thesis using assms(1) by (simp add: hist_def)
next
  case (Drain i)
  then have "pending st' = pending st \<and> registry st' = registry st"
    using assms(2) by (auto simp: step_def drain_step_def split: if_splits dres.splits)
  then show ?thesis using assms(1) by (simp add: hist_def)
qed

lemma hist_reachable:
  assumes "run ls (init n ts cs) = Some st"
  shows "hist cs st"
  using assms hist_init
proof (rule run_invariant)
  fix l a b assume "hist cs a" "step l a = Some b"
  then show "hist cs b" by (rule hist_step)
qed

lemma hist_processed:
  assumes "hist cs st"
  shows "(map_of (registry st) t \<noteq> None) = registered (processed cs st) t"
proof -
  obtain h where h: "cs = h @ pending st" "\<forall>t. (map_of (registry st) t \<noteq> None) = registered h t"
    using assms by (auto simp: hist_def)
  then have "processed cs st = h" by (simp add: processed_def)
  then show ?thesis using h(2) by simp
qed

lemma registered_sink_open:
  assumes "wf_state st" "map_of (registry st) t = Some sid"
  shows "sid < length (sinks st) \<and> \<not> c_closed (sinks st ! sid)"
proof -
  have "sid \<in> set (map snd (registry st))"
    using map_of_Some_snd [OF assms(2)] by simp
  then show ?thesis using assms(1) unfolding wf_state_def by blast
qed

lemmas exec_defs = step_def coord_step_def pick_step_def drain_step_def drain_local_def
  init_def new_sink_def upd_sink_def close_c_def crash_def sink_Write_def sink_Close_def
  chan_len_def can_send_def target_Write_def target_Close_def buffer_def item_len_def Let_def



lemma drain_step_closed:
  assumes "drain_step i st = Some st'"
  shows "c_closed (sinks st' ! j) = c_closed (sinks st ! j)"
proof (cases "drain_local (sinks st ! i) (targets st) (waiting_on (coord st))")
  case (DNext s' ts' a)
  have v: "i < length (sinks st)" using assms by (auto simp: drain_step_def split: if_splits)
  have "c_closed s' = c_closed (sinks st ! i)" using drain_local_closed [OF DNext] .
  then show ?thesis using assms DNext v
    by (cases "j = i") (auto simp: drain_step_def)
qed (use assms in \<open>auto simp: drain_step_def split: if_splits\<close>)

lemma run_drains_closed:
  assumes "\<forall>l \<in> set ds. \<exists>i. l = Drain i" "run ds st = Some st'"
  shows "c_closed (sinks st' ! j) = c_closed (sinks st ! j)"
  using assms
proof (induction ds arbitrary: st)
  case Nil
  then show ?case by simp
next
  case (Cons l ds)
  then obtain i where l: "l = Drain i" by auto
  from Cons.prems(2) obtain st1 where s: "step l st = Some st1" "run ds st1 = Some st'"
    by (auto split: option.splits)
  then have d: "drain_step i st = Some st1" using l by (auto simp: step_def split: if_splits)
  show ?case using Cons.IH [of st1] Cons.prems(1) s(2) drain_step_closed [OF d] by simp
qed

lemma drain_local_buf:
  assumes "drain_local s ts w = DNext s' ts' a"
  shows "c_buf s' = c_buf s \<or> c_buf s' = tl (c_buf s)"
  using assms
  by (cases "pc s")
     (auto simp: drain_local_def Let_def sink_Close_def target_Close_def
           split: list.splits option.splits if_splits prod.splits)

lemma registry_dispatch_sids:
  "snd ` set (registry (dispatch c st)) \<subseteq> insert (length (sinks st)) (snd ` set (registry st))"
  by (cases c) (auto simp: Let_def split: option.splits)

lemma sinks_dispatch_other:
  assumes "i < length (sinks st)" "i \<notin> snd ` set (registry st)"
  shows "sinks (dispatch c st) ! i = sinks st ! i"
proof (cases c)
  case (Add t)
  then show ?thesis using assms
    by (auto simp: Let_def close_c_def nth_append split: option.splits)
next
  case (Remove t)
  show ?thesis
  proof (cases "map_of (registry st) t")
    case None
    then show ?thesis using Remove by simp
  next
    case (Some sid)
    then have "sid \<noteq> i" using assms(2) map_of_Some_snd [OF Some] by auto
    then show ?thesis using Remove Some assms(1) by (simp add: close_c_nth)
  qed
next
  case (Write d)
  then show ?thesis using assms by (simp add: fan_out_other)
next
  case Flush
  then show ?thesis by simp
next
  case Close
  then show ?thesis using assms by (simp add: close_all_other)
qed

lemma length_sinks_dispatch: "length (sinks st) \<le> length (sinks (dispatch c st))"
  by (cases c) (auto simp: Let_def split: option.splits)

lemma retired_step:
  assumes "retired sid st" "step l st = Some st'"
  shows "retired sid st' \<and>
     (c_buf (sinks st' ! sid) = c_buf (sinks st ! sid) \<or> c_buf (sinks st' ! sid) = tl (c_buf (sinks st ! sid)))"
proof -
  have w: "wf_state st" and v: "sid < length (sinks st)" and u: "sid \<notin> snd ` set (registry st)"
    using assms(1) by (auto simp: retired_def)
  have w': "wf_state st'" using wf_step [OF w assms(2)] .
  have nc: "sid \<notin> set (coord_sids (coord st))" using w u by (auto simp: wf_state_def)
  show ?thesis
  proof (cases l)
    case Coord
    then have cs: "coord_step st = Some st'" using assms(2) by (auto simp: step_def split: if_splits)
    show ?thesis
    proof (cases "coord st")
      case CIdle
      then obtain c rest where p: "pending st = c # rest" "st' = (dispatch c st)\<lparr>pending := rest\<rparr>"
        using cs by (auto simp: coord_step_def split: list.splits)
      have "sid \<notin> snd ` set (registry st')"
        using registry_dispatch_sids [of c st] u v p(2) by auto
      moreover have "sinks st' ! sid = sinks st ! sid"
        using sinks_dispatch_other [OF v u] p(2) by simp
      moreover have "sid < length (sinks st')" using length_sinks_dispatch [of st c] v p(2) by simp
      ultimately show ?thesis using w' by (simp add: retired_def)
    next
      case (CFlushNext todo)
      then show ?thesis using cs v u w'
        by (auto simp: coord_step_def retired_def split: if_splits)
    next
      case (CFlushSel i todo)
      then show ?thesis using cs v u w'
        by (auto simp: coord_step_def retired_def split: if_splits)
    next
      case (CFlushReg i todo)
      then have "i \<noteq> sid" using nc by auto
      then show ?thesis using cs v u w' CFlushReg
        by (auto simp: coord_step_def retired_def Let_def split: if_splits)
    next
      case (CFlushMark i f todo)
      then have "i \<noteq> sid" using nc by auto
      then show ?thesis using cs v u w' CFlushMark
        by (auto simp: coord_step_def retired_def Let_def split: if_splits)
    next
      case (CFlushWait i f todo)
      then show ?thesis using cs by (simp add: coord_step_def)
    next
      case CDone
      then show ?thesis using cs by (simp add: coord_step_def)
    qed
  next
    case (Pick i)
    then show ?thesis using assms(2) v u w'
      by (auto simp: step_def pick_step_def retired_def split: if_splits cpc.splits)
  next
    case (Drain i)
    then have d: "drain_step i st = Some st'" using assms(2) by (auto simp: step_def split: if_splits)
    have iv: "i < length (sinks st)" using d by (auto simp: drain_step_def split: if_splits)
    show ?thesis
    proof (cases "drain_local (sinks st ! i) (targets st) (waiting_on (coord st))")
      case (DNext s' ts' a)
      have "c_buf s' = c_buf (sinks st ! i) \<or> c_buf s' = tl (c_buf (sinks st ! i))"
        using drain_local_buf [OF DNext] .
      then show ?thesis using d DNext iv v u w'
        by (cases "i = sid") (auto simp: drain_step_def retired_def)
    qed (use d iv v u w' in \<open>auto simp: drain_step_def retired_def\<close>)
  qed
qed

lemma retired_run:
  assumes "retired sid st" "run ls st = Some st'"
  shows "retired sid st' \<and> (\<exists>k. c_buf (sinks st' ! sid) = drop k (c_buf (sinks st ! sid)))"
  using assms
proof (induction ls arbitrary: st)
  case Nil
  then show ?case by (auto intro: exI [where x = 0])
next
  case (Cons l ls)
  from Cons.prems(2) obtain st1 where s: "step l st = Some st1" "run ls st1 = Some st'"
    by (auto split: option.splits)
  have r1: "retired sid st1" and
    b1: "c_buf (sinks st1 ! sid) = c_buf (sinks st ! sid) \<or> c_buf (sinks st1 ! sid) = tl (c_buf (sinks st ! sid))"
    using retired_step [OF Cons.prems(1) s(1)] by auto
  obtain k where k: "retired sid st'" "c_buf (sinks st' ! sid) = drop k (c_buf (sinks st1 ! sid))"
    using Cons.IH [OF r1 s(2)] by auto
  from b1 show ?case
  proof
    assume "c_buf (sinks st1 ! sid) = c_buf (sinks st ! sid)"
    then show ?thesis using k by auto
  next
    assume "c_buf (sinks st1 ! sid) = tl (c_buf (sinks st ! sid))"
    then have "c_buf (sinks st' ! sid) = drop (Suc k) (c_buf (sinks st ! sid))"
      using k(2) by (simp add: drop_Suc)
    then show ?thesis using k(1) by blast
  qed
qed




lemma sink_Write_core: "sink_Write s b = Some (s', k, e) \<Longrightarrow> core s' = core s"
  by (auto simp: sink_Write_def core_def split: if_splits)

lemma fan_out_core: "core (sinks (fan_out is b st) ! i) = core (sinks st ! i)"
proof (induction "is" b st rule: fan_out.induct)
  case (1 b st)
  then show ?case by simp
next
  case (2 sid rest b st)
  then show ?case
    by (auto split: option.splits if_splits simp: nth_list_update dest: sink_Write_core)
qed

lemma close_c_core: "core (sinks (close_c j st) ! i) = core (sinks st ! i)"
  by (auto simp: close_c_def core_def nth_list_update)

lemma close_all_core: "core (sinks (close_all is st) ! i) = core (sinks st ! i)"
  by (induction "is" st rule: close_all.induct) (auto simp: close_c_core)

lemma dispatch_core:
  assumes "i < length (sinks st)"
  shows "core (sinks (dispatch c st) ! i) = core (sinks st ! i)"
proof (cases c)
  case (Add t)
  have "core (sinks (close_c j (st\<lparr>sinks := sinks st @ [x]\<rparr>)) ! i) = core (sinks st ! i)" for j x
    using assms by (simp add: close_c_core nth_append)
  then show ?thesis using Add assms by (auto simp: Let_def nth_append split: option.splits)
next
  case (Remove t)
  then show ?thesis by (auto simp: close_c_core split: option.splits)
next
  case (Write d)
  then show ?thesis by (simp add: fan_out_core)
next
  case Flush
  then show ?thesis by simp
next
  case Close
  then show ?thesis by (simp add: close_all_core)
qed

lemma dispatch_targets [simp]: "targets (dispatch c st) = targets st"
  by (cases c) (auto simp: Let_def split: option.splits)

lemma coord_step_core:
  assumes "coord_step st = Some st'" "i < length (sinks st)"
  shows "core (sinks st' ! i) = core (sinks st ! i) \<and> targets st' = targets st"
proof (cases "coord st")
  case CIdle
  then show ?thesis using assms
    by (auto simp: coord_step_def dispatch_core split: list.splits)
next
  case (CFlushReg sid todo)
  then show ?thesis using assms
    by (auto simp: coord_step_def Let_def core_def nth_list_update split: if_splits)
next
  case (CFlushMark sid f todo)
  then show ?thesis using assms
    by (auto simp: coord_step_def Let_def core_def nth_list_update split: if_splits)
qed (use assms in \<open>auto simp: coord_step_def split: if_splits\<close>)

lemma pick_step_sinks:
  "pick_step j st = Some st' \<Longrightarrow> sinks st' = sinks st \<and> targets st' = targets st"
  by (auto simp: pick_step_def split: cpc.splits if_splits)

lemma drain_step_other:
  assumes "drain_step j st = Some st'" "i \<noteq> j"
  shows "sinks st' ! i = sinks st ! i"
  using assms by (auto simp: drain_step_def split: if_splits dres.splits)

lemma step_length_sinks: "step l st = Some st' \<Longrightarrow> length (sinks st) \<le> length (sinks st')"
proof (cases l)
  case Coord
  assume "step l st = Some st'"
  then have c: "coord_step st = Some st'" using Coord by (auto simp: step_def split: if_splits)
  show ?thesis
  proof (cases "coord st")
    case CIdle
    then show ?thesis using c length_sinks_dispatch
      by (auto simp: coord_step_def split: list.splits)
  qed (use c in \<open>auto simp: coord_step_def Let_def split: if_splits\<close>)
next
  case (Pick j)
  assume "step l st = Some st'"
  then show ?thesis using Pick by (auto simp: step_def dest: pick_step_sinks split: if_splits)
next
  case (Drain j)
  assume "step l st = Some st'"
  then show ?thesis using Drain
    by (auto simp: step_def drain_step_def split: if_splits dres.splits)
qed

lemma step_core_other:
  assumes "step l st = Some st'" "i < length (sinks st)" "l \<noteq> Drain i"
  shows "core (sinks st' ! i) = core (sinks st ! i)"
proof (cases l)
  case Coord
  then show ?thesis using assms coord_step_core [of st st' i]
    by (auto simp: step_def split: if_splits)
next
  case (Pick j)
  then show ?thesis using assms by (auto simp: step_def dest: pick_step_sinks split: if_splits)
next
  case (Drain j)
  then have "drain_step j st = Some st'" "i \<noteq> j" using assms by (auto simp: step_def split: if_splits)
  then show ?thesis by (simp add: drain_step_other)
qed



lemma drain_local_err:
  assumes "drain_local s ts w = DNext s' ts' a" "sink_ok s"
  shows "(err s \<noteq> None \<longrightarrow> err s' = err s)
     \<and> (err s = None \<and> err s' \<noteq> None \<longrightarrow>
          (\<exists>x t. pc s = DWrite x \<and> writer s = Some t \<and> t < length ts
             \<and> snd (target_Write (ts ! t) x) = err s')
          \<and> \<not> done_closed s \<and> done_closed s' \<and> pc s' = DErrClose)"
proof (cases "pc s")
  case (DWrite x)
  then show ?thesis using assms
    by (auto simp: drain_local_def sink_ok_def Let_def split: option.splits if_splits prod.splits)
next
  case DErrClose
  then show ?thesis using assms
    by (auto simp: drain_local_def sink_ok_def sink_Close_def target_Close_def Let_def
          split: option.splits if_splits)
qed (use assms in \<open>auto simp: drain_local_def split: list.splits if_splits\<close>)


lemma data_items_tl: "\<exists>k. data_items (tl xs) = drop k (data_items xs)"
proof (cases xs)
  case Nil
  then show ?thesis by (simp add: data_items_def)
next
  case (Cons x ys)
  show ?thesis
  proof (cases "x = None")
    case True
    then show ?thesis using Cons by (auto simp: data_items_def intro: exI [where x = 0])
  next
    case False
    then show ?thesis using Cons by (auto simp: data_items_def intro: exI [where x = 1])
  qed
qed

lemma fan_out_done:
  "i < length (sinks st) \<Longrightarrow> done_closed (sinks st ! i) \<Longrightarrow>
   sinks (fan_out is b st) ! i = sinks st ! i"
proof (induction "is" b st rule: fan_out.induct)
  case (1 b st)
  then show ?case by simp
next
  case (2 sid rest b st)
  show ?case
  proof (cases "sid < length (sinks st)")
    case False
    then show ?thesis by simp
  next
    case True
    show ?thesis
    proof (cases "sink_Write (sinks st ! sid) b")
      case None
      then show ?thesis using True by simp
    next
      case (Some r)
      obtain s' k e where r: "r = (s', k, e)" by (cases r)
      have same: "sid = i \<Longrightarrow> s' = sinks st ! i"
        using Some r 2(3) by (auto simp: sink_Write_def)
      let ?st1 = "st\<lparr>sinks := (sinks st)[sid := s']\<rparr>"
      have a: "sinks ?st1 ! i = sinks st ! i" using same 2(2) by (cases "sid = i") auto
      then have "sinks (fan_out rest b ?st1) ! i = sinks ?st1 ! i"
        using 2(1) [OF True Some] r 2(2,3) by simp
      then show ?thesis using True Some r a by simp
    qed
  qed
qed

lemma dispatch_done:
  assumes "i < length (sinks st)" "done_closed (sinks st ! i)"
  shows "c_buf (sinks (dispatch c st) ! i) = c_buf (sinks st ! i)"
proof (cases c)
  case (Add t)
  have "c_buf (sinks (close_c j (st\<lparr>sinks := sinks st @ [x]\<rparr>)) ! i) = c_buf (sinks st ! i)" for j x
    using assms by (auto simp: close_c_def nth_append nth_list_update)
  then show ?thesis using Add assms by (auto simp: Let_def nth_append split: option.splits)
next
  case (Remove t)
  then show ?thesis using assms by (auto simp: close_c_def nth_list_update split: option.splits)
next
  case (Write d)
  then show ?thesis using assms by (simp add: fan_out_done)
next
  case Flush
  then show ?thesis by simp
next
  case Close
  have "c_buf (sinks (close_all is st) ! i) = c_buf (sinks st ! i)" for "is"
    by (induction "is" st rule: close_all.induct) (auto simp: close_c_def nth_list_update)
  then show ?thesis using Close by simp
qed

lemma coord_step_done:
  assumes "coord_step st = Some st'" "i < length (sinks st)" "done_closed (sinks st ! i)"
  shows "data_items (c_buf (sinks st' ! i)) = data_items (c_buf (sinks st ! i))"
proof (cases "coord st")
  case CIdle
  then show ?thesis using assms
    by (auto simp: coord_step_def dispatch_done split: list.splits)
next
  case (CFlushReg sid todo)
  then show ?thesis using assms
    by (auto simp: coord_step_def Let_def nth_list_update split: if_splits)
next
  case (CFlushMark sid f todo)
  then show ?thesis using assms
    by (auto simp: coord_step_def Let_def nth_list_update data_items_def split: if_splits)
qed (use assms in \<open>auto simp: coord_step_def split: if_splits\<close>)

lemma sink_Close_tlog:
  "sink_Close s ts = Some (s', ts', e) \<Longrightarrow>
     map tlog ts' = map tlog ts \<and> c_buf s' = c_buf s \<and> done_closed s' = done_closed s"
  by (auto simp: sink_Close_def target_Close_def Let_def map_update list_update_same_conv
        split: option.splits if_splits)

lemma drain_local_terminal:
  assumes "drain_local s ts w = DNext s' ts' a" "done_closed s" "sink_ok s"
  shows "done_closed s' \<and> map tlog ts' = map tlog ts \<and> \<not> a
     \<and> (c_buf s' = c_buf s \<or> c_buf s' = tl (c_buf s))
     \<and> (pc s = DErrClose \<longrightarrow> pc s' = DSink \<and> c_buf s' = c_buf s)
     \<and> (pc s = DSink \<longrightarrow> pc s' \<in> {DSink, DExit} \<and> (c_buf s \<noteq> [] \<longrightarrow> c_buf s' = tl (c_buf s)))"
proof -
  have "pc s \<in> {DErrClose, DSink, DExit}" using assms(2,3) by (simp add: sink_ok_def)
  then consider "pc s = DErrClose" | "pc s = DSink" | "pc s = DExit" by auto
  then show ?thesis
  proof cases
    case 1
    then show ?thesis using assms
      by (auto simp: drain_local_def split: option.splits dest: sink_Close_tlog)
  next
    case 2
    then show ?thesis using assms
      by (auto simp: drain_local_def split: list.splits if_splits)
  next
    case 3
    then show ?thesis using assms by (simp add: drain_local_def)
  qed
qed

lemma drain_stepE:
  assumes "drain_step i st = Some st'"
  obtains (panics) "i < length (sinks st)" "st' = crash st"
      "drain_local (sinks st ! i) (targets st) (waiting_on (coord st)) = DPanic"
    | (moves) s' ts' a where "i < length (sinks st)"
      "drain_local (sinks st ! i) (targets st) (waiting_on (coord st)) = DNext s' ts' a"
      "st' = (upd_sink i s' st)\<lparr>targets := ts', coord := (if a then after_ack (coord st) else coord st)\<rparr>"
  using assms by (auto simp: drain_step_def split: if_splits dres.splits)

lemma core_done: "core s' = core s \<Longrightarrow> done_closed s' = done_closed s \<and> err s' = err s"
  by (simp add: core_def)

lemma terminal_step:
  assumes "wf_state st" "i < length (sinks st)" "done_closed (sinks st ! i)" "step l st = Some st'"
  shows "done_closed (sinks st' ! i) \<and> err (sinks st' ! i) = err (sinks st ! i)
     \<and> (\<exists>k. data_items (c_buf (sinks st' ! i)) = drop k (data_items (c_buf (sinks st ! i))))
     \<and> (l = Drain i \<longrightarrow> map tlog (targets st') = map tlog (targets st))"
proof (cases "l = Drain i")
  case False
  have c: "done_closed (sinks st' ! i) = done_closed (sinks st ! i) \<and> err (sinks st' ! i) = err (sinks st ! i)"
    using step_core_other [OF assms(4,2) False] by (rule core_done)
  have "data_items (c_buf (sinks st' ! i)) = data_items (c_buf (sinks st ! i))"
  proof (cases l)
    case Coord
    then have "coord_step st = Some st'" using assms(4) by (auto simp: step_def split: if_splits)
    then show ?thesis using assms(2,3) by (rule coord_step_done)
  next
    case (Pick j)
    then show ?thesis using assms(4) by (auto simp: step_def dest: pick_step_sinks split: if_splits)
  next
    case (Drain j)
    then have "drain_step j st = Some st'" "i \<noteq> j" using assms(4) False
      by (auto simp: step_def split: if_splits)
    then show ?thesis by (simp add: drain_step_other)
  qed
  then have "\<exists>k. data_items (c_buf (sinks st' ! i)) = drop k (data_items (c_buf (sinks st ! i)))"
    by (auto intro: exI [where x = 0])
  then show ?thesis using c assms(3) False by simp
next
  case True
  then have ds: "drain_step i st = Some st'" using assms(4) by (auto simp: step_def split: if_splits)
  have ok: "sink_ok (sinks st ! i)" using wf_sink_ok [OF assms(1,2)] .
  from ds show ?thesis
  proof (cases rule: drain_stepE)
    case panics
    then show ?thesis using assms(3) by (auto intro: exI [where x = 0])
  next
    case (moves s' ts' a)
    note t = drain_local_terminal [OF moves(2) assms(3) ok]
    have e: "err s' = err (sinks st ! i)"
      using drain_local_err [OF moves(2) ok] assms(3) by (cases "err (sinks st ! i)") auto
    have n: "sinks st' ! i = s'" "targets st' = ts'" using moves(1,3) by auto
    have "\<exists>k. data_items (c_buf s') = drop k (data_items (c_buf (sinks st ! i)))"
      using t data_items_tl [of "c_buf (sinks st ! i)"] by (auto intro: exI [where x = 0])
    then show ?thesis using t e n by simp
  qed
qed

lemma terminal_run:
  assumes "wf_state st" "i < length (sinks st)" "done_closed (sinks st ! i)" "run ls st = Some st'"
  shows "i < length (sinks st') \<and> done_closed (sinks st' ! i) \<and> err (sinks st' ! i) = err (sinks st ! i)
     \<and> (\<exists>k. data_items (c_buf (sinks st' ! i)) = drop k (data_items (c_buf (sinks st ! i))))"
  using assms
proof (induction ls arbitrary: st)
  case Nil
  then show ?case by (auto intro: exI [where x = 0])
next
  case (Cons l ls)
  from Cons.prems(4) obtain st1 where s: "step l st = Some st1" "run ls st1 = Some st'"
    by (auto split: option.splits)
  note t = terminal_step [OF Cons.prems(1-3) s(1)]
  have w1: "wf_state st1" using wf_step [OF Cons.prems(1) s(1)] .
  have l1: "i < length (sinks st1)" using step_length_sinks [OF s(1)] Cons.prems(2) by simp
  from t obtain k1 where k1: "data_items (c_buf (sinks st1 ! i)) = drop k1 (data_items (c_buf (sinks st ! i)))"
    by auto
  from Cons.IH [OF w1 l1 _ s(2)] t obtain k2 where
    r: "i < length (sinks st')" "done_closed (sinks st' ! i)" "err (sinks st' ! i) = err (sinks st1 ! i)"
       "data_items (c_buf (sinks st' ! i)) = drop k2 (data_items (c_buf (sinks st1 ! i)))"
    by auto
  have "data_items (c_buf (sinks st' ! i)) = drop (k2 + k1) (data_items (c_buf (sinks st ! i)))"
    using r(4) k1 by simp
  moreover have "err (sinks st' ! i) = err (sinks st ! i)" using r(3) t by simp
  ultimately show ?case using r(1,2) by blast
qed

lemma sink_Close_enabled: "done_closed s \<Longrightarrow> sink_Close s ts \<noteq> None"
  by (auto simp: sink_Close_def target_Close_def Let_def split: option.splits)

lemma terminal_no_panic:
  assumes "done_closed s" "sink_ok s"
  shows "drain_local s ts w \<noteq> DPanic"
proof -
  have "pc s \<in> {DErrClose, DSink, DExit}" using assms by (simp add: sink_ok_def)
  then consider "pc s = DErrClose" | "pc s = DSink" | "pc s = DExit" by auto
  then show ?thesis
    by cases (auto simp: drain_local_def split: option.splits list.splits)
qed

lemma fan_out_pres:
  assumes "\<And>s s' k e. Q s \<Longrightarrow> sink_Write s b = Some (s', k, e) \<Longrightarrow> Q s'"
  shows "\<forall>s \<in> set (sinks st). Q s \<Longrightarrow> \<forall>s \<in> set (sinks (fan_out is b st)). Q s"
proof (induction "is" arbitrary: st)
  case Nil
  then show ?case by simp
next
  case (Cons sid rest)
  show ?case
  proof (cases "sid < length (sinks st)")
    case False
    with Cons show ?thesis by simp
  next
    case True
    show ?thesis
    proof (cases "sink_Write (sinks st ! sid) b")
      case None
      with True Cons show ?thesis by simp
    next
      case (Some r)
      obtain s' k e where r: "r = (s', k, e)" by (cases r)
      have "Q (sinks st ! sid)" using True Cons.prems by simp
      then have "Q s'" using assms [of "sinks st ! sid" s' k e] Some r by simp
      then have "\<forall>s\<in>set (sinks (st\<lparr>sinks := (sinks st)[sid := s']\<rparr>)). Q s"
        using Cons.prems by (auto dest!: subsetD [OF set_update_subset_insert])
      then have "\<forall>s\<in>set (sinks (fan_out rest b (st\<lparr>sinks := (sinks st)[sid := s']\<rparr>))). Q s"
        by (rule Cons.IH)
      with True Some r show ?thesis by simp
    qed
  qed
qed

lemma items_ok_Write:
  "items_ok cs s \<Longrightarrow> b \<in> submitted cs \<Longrightarrow> sink_Write s b = Some (s', k, e) \<Longrightarrow> items_ok cs s'"
  by (auto simp: items_ok_def sink_Write_def split: if_splits)

lemma items_ok_new [simp]: "items_ok cs (new_sink t n)"
  by (simp add: items_ok_def new_sink_def)

lemma items_ok_closed: "items_ok cs s \<Longrightarrow> items_ok cs (s\<lparr>c_closed := True\<rparr>)"
  by (simp add: items_ok_def)

lemma close_c_items:
  "\<forall>s \<in> set (sinks st). items_ok cs s \<Longrightarrow> \<forall>s \<in> set (sinks (close_c i st)). items_ok cs s"
  by (auto simp: close_c_def items_ok_closed dest!: subsetD [OF set_update_subset_insert])

lemma close_all_items:
  "\<forall>s \<in> set (sinks st). items_ok cs s \<Longrightarrow> \<forall>s \<in> set (sinks (close_all is st)). items_ok cs s"
  by (induction "is" st rule: close_all.induct) (auto dest: close_c_items)

lemma dispatch_items:
  assumes "\<forall>s \<in> set (sinks st). items_ok cs s" "c \<in> set cs"
  shows "\<forall>s \<in> set (sinks (dispatch c st)). items_ok cs s"
proof (cases c)
  case (Add t)
  have "\<forall>s \<in> set (sinks (st\<lparr>sinks := sinks st @ [new_sink t (bufsPerSink st)]\<rparr>)). items_ok cs s"
    using assms(1) by simp
  then have "\<forall>s \<in> set (sinks (close_c j (st\<lparr>sinks := sinks st @ [new_sink t (bufsPerSink st)]\<rparr>))). items_ok cs s" for j
    by (rule close_c_items)
  then show ?thesis using Add assms(1) by (auto simp: Let_def split: option.splits)
next
  case (Remove t)
  then show ?thesis using close_c_items [OF assms(1)] assms(1) by (auto split: option.splits)
next
  case (Write d)
  then have "Some d \<in> submitted cs" using assms(2) by (auto simp: submitted_def)
  then have "\<forall>s \<in> set (sinks (fan_out is (Some d) st)). items_ok cs s" for "is"
    using assms(1) by (intro fan_out_pres) (auto intro: items_ok_Write)
  then show ?thesis using Write by simp
next
  case Flush
  then show ?thesis using assms(1) by simp
next
  case Close
  then show ?thesis using close_all_items [OF assms(1)] by simp
qed

lemma logs_ok_refl: "logs_ok cs ts ts"
  by (simp add: logs_ok_def)

lemma logs_ok_write:
  assumes "logs_ok cs ts ts'" "t < length ts'" "target_Write (ts' ! t) x = (tg, e)" "x \<in> submitted cs"
  shows "logs_ok cs ts (ts'[t := tg])"
proof -
  have tg: "tlog tg = tlog (ts' ! t) @ [x]"
    using assms(3) by (auto simp: target_Write_def split: list.splits)
  show ?thesis unfolding logs_ok_def
  proof (intro conjI allI impI)
    show "length (ts'[t := tg]) = length ts" using assms(1) by (simp add: logs_ok_def)
  next
    fix j assume j: "j < length ts"
    then obtain new where n: "tlog (ts' ! j) = tlog (ts ! j) @ new" "set new \<subseteq> submitted cs"
      using assms(1) by (auto simp: logs_ok_def)
    show "\<exists>new. tlog (ts'[t := tg] ! j) = tlog (ts ! j) @ new \<and> set new \<subseteq> submitted cs"
    proof (cases "j = t")
      case True
      then have "tlog (ts'[t := tg] ! j) = tlog (ts ! j) @ (new @ [x])"
        using assms(2) tg n(1) by simp
      moreover have "set (new @ [x]) \<subseteq> submitted cs" using n(2) assms(4) by simp
      ultimately show ?thesis by blast
    next
      case False
      then show ?thesis using n by auto
    qed
  qed
qed

lemma logs_ok_same_tlog:
  assumes "logs_ok cs ts ts'" "map tlog ts'' = map tlog ts'"
  shows "logs_ok cs ts ts''"
proof -
  have l: "length ts'' = length ts'" using assms(2) by (metis length_map)
  have "tlog (ts'' ! j) = tlog (ts' ! j)" if "j < length ts'" for j
    using assms(2) that l by (metis nth_map)
  then show ?thesis using assms(1) l by (auto simp: logs_ok_def)
qed

lemma drain_local_delivery:
  assumes "drain_local s tgs w = DNext s' tgs' a" "items_ok cs s" "logs_ok cs ts tgs"
  shows "items_ok cs s' \<and> logs_ok cs ts tgs'"
proof (cases "pc s")
  case (DWrite x)
  then obtain t where t: "writer s = Some t" "t < length tgs"
    using assms(1) by (auto simp: drain_local_def split: option.splits if_splits)
  obtain tg e where w: "target_Write (tgs ! t) x = (tg, e)" by (cases "target_Write (tgs ! t) x")
  have x: "x \<in> submitted cs" using DWrite assms(2) by (simp add: items_ok_def)
  have "tgs' = tgs[t := tg]" "c_buf s' = c_buf s" "\<forall>y. pc s' \<noteq> DWrite y"
    using assms(1) DWrite t w by (auto simp: drain_local_def split: if_splits)
  then show ?thesis using logs_ok_write [OF assms(3) t(2) w x] assms(2)
    by (simp add: items_ok_def)
next
  case DErrClose
  then obtain s1 e where c: "sink_Close s tgs = Some (s1, tgs', e)" "s' = s1\<lparr>pc := DSink\<rparr>"
    using assms(1) by (auto simp: drain_local_def split: option.splits)
  then show ?thesis using sink_Close_tlog [OF c(1)] assms(2,3)
    by (auto simp: items_ok_def intro: logs_ok_same_tlog)
next
  case DRange
  then show ?thesis using assms
    by (auto simp: drain_local_def items_ok_def split: list.splits if_splits)
next
  case DDiscard
  then show ?thesis using assms
    by (cases "c_buf s") (auto simp: drain_local_def items_ok_def split: if_splits)
next
  case DSink
  then show ?thesis using assms
    by (auto simp: drain_local_def items_ok_def split: list.splits if_splits)
qed (use assms in \<open>auto simp: drain_local_def items_ok_def split: list.splits if_splits\<close>)

lemma items_upd:
  "\<forall>s \<in> set xs. items_ok cs s \<Longrightarrow> items_ok cs s' \<Longrightarrow> \<forall>s \<in> set (xs[i := s']). items_ok cs s"
  by (auto dest!: subsetD [OF set_update_subset_insert])

lemma delivery_frame:
  assumes "delivery_inv cs ts st" "pending st' = pending st" "sinks st' = (sinks st)[i := s']"
    "items_ok cs s'" "logs_ok cs ts (targets st')"
  shows "delivery_inv cs ts st'"
proof -
  have "\<forall>s \<in> set (sinks st'). items_ok cs s"
    unfolding assms(3) using assms(1,4) by (intro items_upd) (auto simp: delivery_inv_def)
  then show ?thesis using assms(1,2,5) by (simp add: delivery_inv_def)
qed

lemma delivery_coord_step:
  assumes "delivery_inv cs ts st" "coord_step st = Some st'"
  shows "delivery_inv cs ts st'"
proof (cases "coord st")
  case CIdle
  then obtain c rest where p: "pending st = c # rest" "st' = (dispatch c st)\<lparr>pending := rest\<rparr>"
    using assms(2) by (auto simp: coord_step_def split: list.splits)
  have "c \<in> set cs" "set rest \<subseteq> set cs" using assms(1) p(1) by (auto simp: delivery_inv_def)
  moreover have "\<forall>s \<in> set (sinks (dispatch c st)). items_ok cs s"
    using assms(1) \<open>c \<in> set cs\<close> by (intro dispatch_items) (auto simp: delivery_inv_def)
  ultimately show ?thesis using assms(1) p(2) by (simp add: delivery_inv_def)
next
  case (CFlushReg sid todo)
  let ?s = "sinks st ! sid"
  have i: "items_ok cs (?s\<lparr>flushers := flushers ?s @ [next_f st]\<rparr>)" if "sid < length (sinks st)"
    using assms(1) that by (auto simp: delivery_inv_def items_ok_def)
  have l: "logs_ok cs ts (targets st)" using assms(1) by (simp add: delivery_inv_def)
  have "st' = crash st \<or> (sid < length (sinks st) \<and>
      st' = (upd_sink sid (?s\<lparr>flushers := flushers ?s @ [next_f st]\<rparr>) st)\<lparr>coord := CFlushMark sid (next_f st) todo, next_f := Suc (next_f st)\<rparr>)"
    using assms(2) CFlushReg by (auto simp: coord_step_def Let_def split: if_splits)
  then show ?thesis
  proof
    assume "st' = crash st"
    then show ?thesis using assms(1) by (simp add: delivery_inv_def)
  next
    assume a: "sid < length (sinks st) \<and>
      st' = (upd_sink sid (?s\<lparr>flushers := flushers ?s @ [next_f st]\<rparr>) st)\<lparr>coord := CFlushMark sid (next_f st) todo, next_f := Suc (next_f st)\<rparr>"
    show ?thesis
      by (rule delivery_frame [OF assms(1), where i = sid and s' = "?s\<lparr>flushers := flushers ?s @ [next_f st]\<rparr>"])
         (use a i l in auto)
  qed
next
  case (CFlushMark sid f todo)
  let ?s = "sinks st ! sid"
  have i: "items_ok cs (?s\<lparr>c_buf := c_buf ?s @ [None]\<rparr>)" if "sid < length (sinks st)"
    using assms(1) that by (auto simp: delivery_inv_def items_ok_def)
  have l: "logs_ok cs ts (targets st)" using assms(1) by (simp add: delivery_inv_def)
  have "st' = crash st \<or> (sid < length (sinks st) \<and>
      st' = (upd_sink sid (?s\<lparr>c_buf := c_buf ?s @ [None]\<rparr>) st)\<lparr>coord := CFlushWait sid f todo\<rparr>)"
    using assms(2) CFlushMark by (auto simp: coord_step_def Let_def split: if_splits)
  then show ?thesis
  proof
    assume "st' = crash st"
    then show ?thesis using assms(1) by (simp add: delivery_inv_def)
  next
    assume a: "sid < length (sinks st) \<and>
      st' = (upd_sink sid (?s\<lparr>c_buf := c_buf ?s @ [None]\<rparr>) st)\<lparr>coord := CFlushWait sid f todo\<rparr>"
    show ?thesis
      by (rule delivery_frame [OF assms(1), where i = sid and s' = "?s\<lparr>c_buf := c_buf ?s @ [None]\<rparr>"])
         (use a i l in auto)
  qed
qed (use assms in \<open>auto simp: coord_step_def delivery_inv_def split: if_splits\<close>)

lemma delivery_step:
  assumes "delivery_inv cs ts st" "step l st = Some st'"
  shows "delivery_inv cs ts st'"
proof (cases l)
  case Coord
  then show ?thesis using assms by (auto simp: step_def split: if_splits intro: delivery_coord_step)
next
  case (Pick j)
  then show ?thesis using assms
    by (auto simp: step_def pick_step_def delivery_inv_def split: if_splits cpc.splits)
next
  case (Drain j)
  then have "drain_step j st = Some st'" using assms(2) by (auto simp: step_def split: if_splits)
  then show ?thesis
  proof (cases rule: drain_stepE)
    case panics
    then show ?thesis using assms(1) by (simp add: delivery_inv_def)
  next
    case (moves s' tgs' a)
    have "items_ok cs (sinks st ! j)" "logs_ok cs ts (targets st)"
      using assms(1) moves(1) by (auto simp: delivery_inv_def)
    then have n: "items_ok cs s' \<and> logs_ok cs ts tgs'"
      using drain_local_delivery [OF moves(2)] by simp
    show ?thesis
      by (rule delivery_frame [OF assms(1), where i = j and s' = s'])
         (use n moves(3) in auto)
  qed
qed

lemma delivery_reachable:
  assumes "run ls (init n ts cs) = Some st"
  shows "delivery_inv cs ts st"
proof -
  have "delivery_inv cs ts (init n ts cs)"
    by (simp add: delivery_inv_def init_def logs_ok_refl)
  with assms show ?thesis
  proof (rule run_invariant)
    fix l a b assume "delivery_inv cs ts a" "step l a = Some b"
    then show "delivery_inv cs ts b" by (rule delivery_step)
  qed
qed

lemma target_Write_logged [simp]: "target_Write (logged l) x = (logged (l @ [x]), None)"
  by (simp add: target_Write_def logged_def buffer_def)

lemma drain_flushed:
  assumes "flushed n s" "drain_local s [logged l] w = DNext s' ts' a"
  shows "flushed n s' \<and> ts' = [logged l] \<and> \<not> a"
  using assms by (auto simp: flushed_def alive_def drain_local_def split: if_splits)

lemma drain_fresh:
  assumes "fresh n s" "drain_local s [logged l] w = DNext s' ts' a"
  shows "fresh n s' \<and> ts' = [logged l] \<and> \<not> a"
  using assms by (auto simp: fresh_def alive_def drain_local_def split: if_splits)

lemma drain_dead:
  assumes "dead n s" "drain_local s [logged l] w = DNext s' ts' a"
  shows "dead n s' \<and> ts' = [logged l] \<and> \<not> a"
  using assms by (auto simp: dead_def drain_local_def split: if_splits)

lemma drain_fed:
  assumes "fed n d F L l s" "drain_local s [logged l] w = DNext s' ts' a"
  shows "\<exists>l'. fed n d F L l' s' \<and> ts' = [logged l'] \<and> \<not> a"
  using assms by (auto simp: fed_def alive_def drain_local_def split: if_splits)

lemma drain_marked:
  assumes "marked n d f L l s" "drain_local s [logged l] (Some f) = DNext s' ts' a"
  shows "\<exists>l'. ts' = [logged l'] \<and>
     ((\<not> a \<and> marked n d f L l' s') \<or> (a \<and> flushed n s' \<and> l' = L @ [Some d]))"
  using assms
  by (auto simp: marked_def flushed_def alive_def drain_local_def chan_len_def split: if_splits)

lemma round_base_pre:
  assumes "round_base n st pre s l" "dead n x'" "i < length pre"
  shows "round_base n (st\<lparr>sinks := pre[i := x'] @ [s]\<rparr>) (pre[i := x']) s l"
  using assms by (auto simp: round_base_def dest!: subsetD [OF set_update_subset_insert])

lemma round_base_last:
  assumes "round_base n st pre s l"
  shows "round_base n (st\<lparr>sinks := pre @ [s'], targets := [logged l'], coord := c\<rparr>) pre s' l'"
  using assms by (auto simp: round_base_def)

lemma drain_round:
  assumes "round_base n st pre s l" "step (Drain i) st = Some st'"
  shows "(i < length pre \<and> (\<exists>x'. dead n x' \<and> st' = st\<lparr>sinks := pre[i := x'] @ [s]\<rparr>)) \<or>
     (i = length pre \<and> (\<exists>s' ts' a.
         drain_local s [logged l] (waiting_on (coord st)) = DNext s' ts' a
         \<and> st' = st\<lparr>sinks := pre @ [s'], targets := ts',
                     coord := (if a then after_ack (coord st) else coord st)\<rparr>)) \<or>
     (i = length pre \<and> drain_local s [logged l] (waiting_on (coord st)) = DPanic)"
proof -
  have nc: "\<not> crashed st" and sk: "sinks st = pre @ [s]" and tg: "targets st = [logged l]"
    and dd: "\<forall>x \<in> set pre. dead n x"
    using assms(1) by (auto simp: round_base_def)
  have ds: "drain_step i st = Some st'" using assms(2) nc by (simp add: step_def)
  from ds show ?thesis
  proof (cases rule: drain_stepE)
    case panics
    have "i \<le> length pre" using panics(1) sk by simp
    then have "i < length pre \<or> i = length pre" by auto
    then show ?thesis
    proof
      assume i: "i < length pre"
      then have "dead n (pre ! i)" using dd by simp
      then show ?thesis using panics(3) sk tg i
        by (auto simp: nth_append dead_def drain_local_def split: if_splits)
    next
      assume i: "i = length pre"
      then show ?thesis using panics(3) sk tg by simp
    qed
  next
    case (moves s' ts' a)
    have "i \<le> length pre" using moves(1) sk by simp
    then have "i < length pre \<or> i = length pre" by auto
    then show ?thesis
    proof
      assume i: "i < length pre"
      then have d: "dead n (pre ! i)" using dd by simp
      have l: "drain_local (pre ! i) [logged l] (waiting_on (coord st)) = DNext s' ts' a"
        using moves(2) sk tg i by (simp add: nth_append)
      note r = drain_dead [OF d l]
      have "st' = st\<lparr>sinks := pre[i := s'] @ [s]\<rparr>"
        using moves(3) r sk tg i by (simp add: upd_sink_def list_update_append)
      then show ?thesis using r i by blast
    next
      assume i: "i = length pre"
      have l: "drain_local s [logged l] (waiting_on (coord st)) = DNext s' ts' a"
        using moves(2) sk tg i by simp
      have "st' = st\<lparr>sinks := pre @ [s'], targets := ts',
                     coord := (if a then after_ack (coord st) else coord st)\<rparr>"
        using moves(3) sk i by (simp add: upd_sink_def)
      then show ?thesis using l i by blast
    qed
  qed
qed

lemma alive_no_panic: "writer s = Some 0 \<Longrightarrow> drain_local s [logged l] w \<noteq> DPanic"
  by (auto simp: drain_local_def Let_def split: dpc.splits list.splits option.splits prod.splits)

lemma flushed_alive: "flushed n s \<Longrightarrow> writer s = Some 0"
  by (simp add: flushed_def alive_def)

lemma fresh_alive: "fresh n s \<Longrightarrow> writer s = Some 0"
  by (simp add: fresh_def alive_def)

lemma fed_alive: "fed n d F L l s \<Longrightarrow> writer s = Some 0"
  by (simp add: fed_def alive_def)

lemma marked_alive: "marked n d f L l s \<Longrightarrow> writer s = Some 0"
  by (simp add: marked_def alive_def)

lemma r_added_drain:
  assumes "r_added n d L tail st" "step (Drain i) st = Some st'"
  shows "r_added n d L tail st'"
proof -
  obtain pre s where b: "round_base n st pre s L" and p: "pending st = Write d # Flush # tail"
    and c: "coord st = CIdle" and f: "fresh n s"
    using assms(1) by (auto simp: r_added_def)
  from drain_round [OF b assms(2)] show ?thesis
  proof (elim disjE conjE exE)
    fix x' assume "i < length pre" "dead n x'" "st' = st\<lparr>sinks := pre[i := x'] @ [s]\<rparr>"
    then show ?thesis using round_base_pre [OF b] p c f unfolding r_added_def
      by (intro exI [where x = "pre[i := x']"] exI [where x = s]) simp
  next
    fix s' ts' a
    assume l: "drain_local s [logged L] (waiting_on (coord st)) = DNext s' ts' a"
      and e: "st' = st\<lparr>sinks := pre @ [s'], targets := ts',
                     coord := (if a then after_ack (coord st) else coord st)\<rparr>"
    note r = drain_fresh [OF f l]
    show ?thesis using round_base_last [OF b, where s' = s' and l' = L and c = CIdle] p c r e unfolding r_added_def
      by (intro exI [where x = pre] exI [where x = s']) simp
  next
    assume "drain_local s [logged L] (waiting_on (coord st)) = DPanic"
    then show ?thesis using alive_no_panic [OF fresh_alive [OF f]] by simp
  qed
qed

lemma r_written_drain:
  assumes "r_written n d L tail st" "step (Drain i) st = Some st'"
  shows "r_written n d L tail st'"
proof -
  obtain pre s l where b: "round_base n st pre s l" and p: "pending st = Flush # tail"
    and c: "coord st = CIdle" and f: "fed n d [] L l s"
    using assms(1) by (auto simp: r_written_def)
  from drain_round [OF b assms(2)] show ?thesis
  proof (elim disjE conjE exE)
    fix x' assume "i < length pre" "dead n x'" "st' = st\<lparr>sinks := pre[i := x'] @ [s]\<rparr>"
    then show ?thesis using round_base_pre [OF b] p c f unfolding r_written_def
      by (intro exI [where x = "pre[i := x']"] exI [where x = s] exI [where x = l]) simp
  next
    fix s' ts' a
    assume l: "drain_local s [logged l] (waiting_on (coord st)) = DNext s' ts' a"
      and e: "st' = st\<lparr>sinks := pre @ [s'], targets := ts',
                     coord := (if a then after_ack (coord st) else coord st)\<rparr>"
    from drain_fed [OF f l] obtain l' where r: "fed n d [] L l' s'" "ts' = [logged l']" "\<not> a"
      by auto
    show ?thesis using round_base_last [OF b, where s' = s' and l' = l' and c = CIdle] p c r e
      unfolding r_written_def
      by (intro exI [where x = pre] exI [where x = s'] exI [where x = l']) simp
  next
    assume "drain_local s [logged l] (waiting_on (coord st)) = DPanic"
    then show ?thesis using alive_no_panic [OF fed_alive [OF f]] by simp
  qed
qed

lemma r_flushed_drain:
  assumes "r_flushed n d L tail st" "step (Drain i) st = Some st'"
  shows "r_flushed n d L tail st'"
proof -
  obtain pre s where b: "round_base n st pre s (L @ [Some d])" and p: "pending st = tail"
    and c: "coord st = CIdle" and f: "flushed n s"
    using assms(1) by (auto simp: r_flushed_def)
  from drain_round [OF b assms(2)] show ?thesis
  proof (elim disjE conjE exE)
    fix x' assume "i < length pre" "dead n x'" "st' = st\<lparr>sinks := pre[i := x'] @ [s]\<rparr>"
    then show ?thesis using round_base_pre [OF b] p c f unfolding r_flushed_def
      by (intro exI [where x = "pre[i := x']"] exI [where x = s]) simp
  next
    fix s' ts' a
    assume l: "drain_local s [logged (L @ [Some d])] (waiting_on (coord st)) = DNext s' ts' a"
      and e: "st' = st\<lparr>sinks := pre @ [s'], targets := ts',
                     coord := (if a then after_ack (coord st) else coord st)\<rparr>"
    note r = drain_flushed [OF f l]
    show ?thesis
      using round_base_last [OF b, where s' = s' and l' = "L @ [Some d]" and c = CIdle] p c r e
      unfolding r_flushed_def
      by (intro exI [where x = pre] exI [where x = s']) simp
  next
    assume "drain_local s [logged (L @ [Some d])] (waiting_on (coord st)) = DPanic"
    then show ?thesis using alive_no_panic [OF flushed_alive [OF f]] by simp
  qed
qed

lemma r_flushing_drain:
  assumes "r_flushing n d L tail st" "step (Drain i) st = Some st'"
  shows "r_flushing n d L tail st'"
proof -
  obtain pre s l where b: "round_base n st pre s l" and p: "pending st = tail"
    and ph: "(coord st \<in> {CFlushNext [length pre], CFlushSel (length pre) [], CFlushReg (length pre) []}
         \<and> fed n d [] L l s) \<or>
      (\<exists>f. coord st = CFlushMark (length pre) f [] \<and> fed n d [f] L l s) \<or>
      (\<exists>f. coord st = CFlushWait (length pre) f [] \<and> marked n d f L l s) \<or>
      (coord st = CFlushNext [] \<and> flushed n s \<and> l = L @ [Some d])"
    using assms(1) by (auto simp: r_flushing_def)
  have w: "writer s = Some 0" using ph by (auto dest: fed_alive marked_alive flushed_alive)
  from drain_round [OF b assms(2)] show ?thesis
  proof (elim disjE conjE exE)
    fix x' assume "i < length pre" "dead n x'" "st' = st\<lparr>sinks := pre[i := x'] @ [s]\<rparr>"
    then show ?thesis using round_base_pre [OF b] p ph unfolding r_flushing_def
      by (intro exI [where x = "pre[i := x']"] exI [where x = s] exI [where x = l]) simp
  next
    assume "drain_local s [logged l] (waiting_on (coord st)) = DPanic"
    then show ?thesis using alive_no_panic [OF w] by simp
  next
    fix s' ts' a
    assume dl: "drain_local s [logged l] (waiting_on (coord st)) = DNext s' ts' a"
      and e: "st' = st\<lparr>sinks := pre @ [s'], targets := ts',
                     coord := (if a then after_ack (coord st) else coord st)\<rparr>"
    from ph show ?thesis
    proof (elim disjE conjE exE)
      assume c: "coord st \<in> {CFlushNext [length pre], CFlushSel (length pre) [], CFlushReg (length pre) []}"
        and f: "fed n d [] L l s"
      from drain_fed [OF f dl] obtain l' where r: "fed n d [] L l' s'" "ts' = [logged l']" "\<not> a"
        by auto
      show ?thesis
        using round_base_last [OF b, where s' = s' and l' = l' and c = "coord st"] p c r e
        unfolding r_flushing_def
        by (intro exI [where x = pre] exI [where x = s'] exI [where x = l']) simp
    next
      fix f assume c: "coord st = CFlushMark (length pre) f []" and f: "fed n d [f] L l s"
      from drain_fed [OF f dl] obtain l' where r: "fed n d [f] L l' s'" "ts' = [logged l']" "\<not> a"
        by auto
      show ?thesis
        using round_base_last [OF b, where s' = s' and l' = l' and c = "coord st"] p c r e
        unfolding r_flushing_def
        by (intro exI [where x = pre] exI [where x = s'] exI [where x = l']) simp
    next
      fix f assume c: "coord st = CFlushWait (length pre) f []" and m: "marked n d f L l s"
      have dl': "drain_local s [logged l] (Some f) = DNext s' ts' a" using dl c by simp
      from drain_marked [OF m dl'] obtain l' where r: "ts' = [logged l']"
          "(\<not> a \<and> marked n d f L l' s') \<or> (a \<and> flushed n s' \<and> l' = L @ [Some d])"
        by auto
      from r(2) show ?thesis
      proof
        assume "\<not> a \<and> marked n d f L l' s'"
        then show ?thesis
          using round_base_last [OF b, where s' = s' and l' = l' and c = "coord st"] p c r(1) e
          unfolding r_flushing_def
          by (intro exI [where x = pre] exI [where x = s'] exI [where x = l']) simp
      next
        assume "a \<and> flushed n s' \<and> l' = L @ [Some d]"
        then show ?thesis
          using round_base_last [OF b, where s' = s' and l' = l' and c = "CFlushNext []"] p c r(1) e
          unfolding r_flushing_def
          by (intro exI [where x = pre] exI [where x = s'] exI [where x = l']) simp
      qed
    next
      assume c: "coord st = CFlushNext []" and f: "flushed n s" and l: "l = L @ [Some d]"
      note r = drain_flushed [OF f dl]
      show ?thesis
        using round_base_last [OF b, where s' = s' and l' = l and c = "coord st"] p c r e l
        unfolding r_flushing_def
        by (intro exI [where x = pre] exI [where x = s'] exI [where x = l]) simp
    qed
  qed
qed

lemma round_base_coord:
  assumes "round_base n st pre s l"
  shows "round_base n (st\<lparr>coord := c, rets := r, pending := p, next_f := k\<rparr>) pre s l"
  using assms by (auto simp: round_base_def)

lemma r_added_coord:
  assumes "r_added n d L tail st" "step Coord st = Some st'" "1 \<le> n"
  shows "r_written n d L tail st'"
proof -
  obtain pre s where b: "round_base n st pre s L" and p: "pending st = Write d # Flush # tail"
    and c: "coord st = CIdle" and f: "fresh n s"
    using assms(1) by (auto simp: r_added_def)
  have nc: "\<not> crashed st" and sk: "sinks st = pre @ [s]" and rg: "registry st = [(0, length pre)]"
    using b by (auto simp: round_base_def)
  let ?s' = "s\<lparr>c_buf := [Some d]\<rparr>"
  have sw: "sink_Write s (Some d) = Some (?s', length d, None)"
    using f assms(3) by (auto simp: sink_Write_def fresh_def alive_def chan_len_def can_send_def item_len_def)
  have e: "st' = st\<lparr>sinks := pre @ [?s'], rets := rets st @ [RWrite (length d) None],
      pending := Flush # tail\<rparr>"
    using assms(2) nc c p sk rg sw by (simp add: step_def coord_step_def)
  have fd: "fed n d [] L L ?s'" using f by (simp add: fed_def fresh_def alive_def)
  have "round_base n st' pre ?s' L" using b e by (auto simp: round_base_def)
  then show ?thesis using e c fd unfolding r_written_def
    by (intro exI [where x = pre] exI [where x = ?s'] exI [where x = L]) simp
qed

lemma r_written_coord:
  assumes "r_written n d L tail st" "step Coord st = Some st'"
  shows "r_flushing n d L tail st'"
proof -
  obtain pre s l where b: "round_base n st pre s l" and p: "pending st = Flush # tail"
    and c: "coord st = CIdle" and f: "fed n d [] L l s"
    using assms(1) by (auto simp: r_written_def)
  have nc: "\<not> crashed st" and rg: "registry st = [(0, length pre)]"
    using b by (auto simp: round_base_def)
  have e: "st' = st\<lparr>coord := CFlushNext [length pre], pending := tail\<rparr>"
    using assms(2) nc c p rg by (simp add: step_def coord_step_def)
  have "round_base n st' pre s l" using b e by (auto simp: round_base_def)
  then show ?thesis using e f unfolding r_flushing_def
    by (intro exI [where x = pre] exI [where x = s] exI [where x = l]) simp
qed

lemma r_flushing_coord:
  assumes "r_flushing n d L tail st" "step Coord st = Some st'"
  shows "r_flushing n d L tail st' \<or> r_flushed n d L tail st'"
proof -
  obtain pre s l where b: "round_base n st pre s l" and p: "pending st = tail"
    and ph: "(coord st \<in> {CFlushNext [length pre], CFlushSel (length pre) [], CFlushReg (length pre) []}
         \<and> fed n d [] L l s) \<or>
      (\<exists>f. coord st = CFlushMark (length pre) f [] \<and> fed n d [f] L l s) \<or>
      (\<exists>f. coord st = CFlushWait (length pre) f [] \<and> marked n d f L l s) \<or>
      (coord st = CFlushNext [] \<and> flushed n s \<and> l = L @ [Some d])"
    using assms(1) by (auto simp: r_flushing_def)
  have nc: "\<not> crashed st" and sk: "sinks st = pre @ [s]"
    using b by (auto simp: round_base_def)
  have cs: "coord_step st = Some st'" using assms(2) nc by (simp add: step_def)
  from ph show ?thesis
  proof (elim disjE conjE exE)
    assume c: "coord st \<in> {CFlushNext [length pre], CFlushSel (length pre) [], CFlushReg (length pre) []}"
      and f: "fed n d [] L l s"
    then consider "coord st = CFlushNext [length pre]" | "coord st = CFlushSel (length pre) []"
      | "coord st = CFlushReg (length pre) []" by auto
    then show ?thesis
    proof cases
      case 1
      then show ?thesis using cs by (simp add: coord_step_def)
    next
      case 2
      then have e: "st' = st\<lparr>coord := CFlushReg (length pre) []\<rparr>"
        using cs sk f by (simp add: coord_step_def fed_def alive_def)
      have "round_base n st' pre s l" using b e by (auto simp: round_base_def)
      then have "r_flushing n d L tail st'" using e f p unfolding r_flushing_def
        by (intro exI [where x = pre] exI [where x = s] exI [where x = l]) simp
      then show ?thesis ..
    next
      case 3
      let ?s' = "s\<lparr>flushers := [next_f st]\<rparr>"
      have e: "st' = st\<lparr>sinks := pre @ [?s'], coord := CFlushMark (length pre) (next_f st) [],
          next_f := Suc (next_f st)\<rparr>"
        using cs sk f 3 by (simp add: coord_step_def fed_def alive_def Let_def upd_sink_def)
      have fd: "fed n d [next_f st] L l ?s'" using f by (simp add: fed_def alive_def)
      have "round_base n st' pre ?s' l" using b e by (auto simp: round_base_def)
      then have "r_flushing n d L tail st'" using e fd p unfolding r_flushing_def
        by (intro exI [where x = pre] exI [where x = ?s'] exI [where x = l]) simp
      then show ?thesis ..
    qed
  next
    fix f assume c: "coord st = CFlushMark (length pre) f []" and fd: "fed n d [f] L l s"
    let ?s' = "s\<lparr>c_buf := c_buf s @ [None]\<rparr>"
    have e: "st' = st\<lparr>sinks := pre @ [?s'], coord := CFlushWait (length pre) f []\<rparr>"
      using cs sk fd c
      by (auto simp: coord_step_def fed_def alive_def Let_def upd_sink_def split: if_splits)
    have m: "marked n d f L l ?s'" using fd by (auto simp: fed_def marked_def alive_def)
    have "round_base n st' pre ?s' l" using b e by (auto simp: round_base_def)
    then have "r_flushing n d L tail st'" using e m p unfolding r_flushing_def
      by (intro exI [where x = pre] exI [where x = ?s'] exI [where x = l]) simp
    then show ?thesis ..
  next
    fix f assume "coord st = CFlushWait (length pre) f []"
    then show ?thesis using cs by (simp add: coord_step_def)
  next
    assume c: "coord st = CFlushNext []" and f: "flushed n s" and l: "l = L @ [Some d]"
    have e: "st' = st\<lparr>coord := CIdle, rets := rets st @ [RFlush]\<rparr>"
      using cs c by (simp add: coord_step_def)
    have "round_base n st' pre s (L @ [Some d])" using b e l by (auto simp: round_base_def)
    then have "r_flushed n d L tail st'" using e f p unfolding r_flushed_def
      by (intro exI [where x = pre] exI [where x = s]) simp
    then show ?thesis ..
  qed
qed

lemma r_flushing_pick:
  assumes "r_flushing n d L tail st" "step (Pick i) st = Some st'"
  shows "r_flushing n d L tail st'"
proof -
  obtain pre s l where b: "round_base n st pre s l" and p: "pending st = tail"
    and ph: "(coord st \<in> {CFlushNext [length pre], CFlushSel (length pre) [], CFlushReg (length pre) []}
         \<and> fed n d [] L l s) \<or>
      (\<exists>f. coord st = CFlushMark (length pre) f [] \<and> fed n d [f] L l s) \<or>
      (\<exists>f. coord st = CFlushWait (length pre) f [] \<and> marked n d f L l s) \<or>
      (coord st = CFlushNext [] \<and> flushed n s \<and> l = L @ [Some d])"
    using assms(1) by (auto simp: r_flushing_def)
  have ps: "pick_step i st = Some st'" using assms(2) by (auto simp: step_def split: if_splits)
  then obtain todo where t: "coord st = CFlushNext todo" "i \<in> set todo"
      "st' = st\<lparr>coord := CFlushSel i (remove1 i todo)\<rparr>"
    by (auto simp: pick_step_def split: cpc.splits if_splits)
  then have "todo = [length pre]" and f: "fed n d [] L l s" using ph by auto
  then have e: "st' = st\<lparr>coord := CFlushSel (length pre) []\<rparr>" using t by simp
  have "round_base n st' pre s l" using b e by (auto simp: round_base_def)
  then show ?thesis using e f p unfolding r_flushing_def
    by (intro exI [where x = pre] exI [where x = s] exI [where x = l]) simp
qed

lemma idle_no_pick: "coord st = CIdle \<Longrightarrow> step (Pick i) st = None"
  by (simp add: step_def pick_step_def)

lemma all_dead_drain:
  assumes "all_dead n l st" "step (Drain i) st = Some st'"
  shows "all_dead n l st' \<and> pending st' = pending st \<and> coord st' = coord st"
proof -
  have nc: "\<not> crashed st" and tg: "targets st = [logged l]" and dd: "\<forall>x \<in> set (sinks st). dead n x"
    using assms(1) by (auto simp: all_dead_def)
  have ds: "drain_step i st = Some st'" using assms(2) nc by (simp add: step_def)
  from ds show ?thesis
  proof (cases rule: drain_stepE)
    case panics
    have "dead n (sinks st ! i)" using dd panics(1) by simp
    then have "writer (sinks st ! i) = Some 0" by (simp add: dead_def)
    then show ?thesis using panics(3) tg alive_no_panic by simp
  next
    case (moves s' ts' a)
    have d: "dead n (sinks st ! i)" using dd moves(1) by simp
    have l: "drain_local (sinks st ! i) [logged l] (waiting_on (coord st)) = DNext s' ts' a"
      using moves(2) tg by simp
    note r = drain_dead [OF d l]
    have "\<forall>x \<in> set ((sinks st)[i := s']). dead n x"
      using dd r by (auto dest!: subsetD [OF set_update_subset_insert])
    then show ?thesis using assms(1) moves(3) r by (simp add: all_dead_def)
  qed
qed

lemma g_idle_drain: "g_idle n l p st \<Longrightarrow> step (Drain i) st = Some st' \<Longrightarrow> g_idle n l p st'"
  using all_dead_drain [of n l st i st'] by (simp add: g_idle_def)

lemma g_flush_drain: "g_flush n l p st \<Longrightarrow> step (Drain i) st = Some st' \<Longrightarrow> g_flush n l p st'"
  using all_dead_drain [of n l st i st'] by (simp add: g_flush_def)

lemma finished_drain: "finished n l st \<Longrightarrow> step (Drain i) st = Some st' \<Longrightarrow> finished n l st'"
  using all_dead_drain [of n l st i st'] by (simp add: finished_def)

lemma g_idle_coord_write:
  assumes "g_idle n l (Write x # p) st" "step Coord st = Some st'"
  shows "g_idle n l p st'"
  using assms by (auto simp: g_idle_def all_dead_def step_def coord_step_def)

lemma g_idle_coord_flush:
  assumes "g_idle n l (Flush # p) st" "step Coord st = Some st'"
  shows "g_flush n l p st'"
  using assms by (auto simp: g_idle_def g_flush_def all_dead_def step_def coord_step_def)

lemma g_flush_coord:
  assumes "g_flush n l p st" "step Coord st = Some st'"
  shows "g_idle n l p st'"
  using assms by (auto simp: g_idle_def g_flush_def all_dead_def step_def coord_step_def)

lemma g_idle_coord_add:
  assumes "g_idle n l (Add 0 # Write d # Flush # tail) st" "step Coord st = Some st'"
  shows "r_added n d l tail st'"
proof -
  have a: "all_dead n l st" and p: "pending st = Add 0 # Write d # Flush # tail" and c: "coord st = CIdle"
    using assms(1) by (auto simp: g_idle_def)
  have e: "st' = st\<lparr>sinks := sinks st @ [new_sink 0 n], registry := [(0, length (sinks st))],
      rets := rets st @ [RAdd], pending := Write d # Flush # tail\<rparr>"
    using assms(2) a p c by (simp add: all_dead_def step_def coord_step_def Let_def)
  have f: "fresh n (new_sink 0 n)" by (simp add: fresh_def alive_def new_sink_def)
  have "round_base n st' (sinks st) (new_sink 0 n) l" using a e by (auto simp: round_base_def all_dead_def)
  then show ?thesis using e c f unfolding r_added_def
    by (intro exI [where x = "sinks st"] exI [where x = "new_sink 0 n"]) simp
qed

lemma flushed_closed_dead: "flushed n s \<Longrightarrow> dead n (s\<lparr>c_closed := True\<rparr>)"
  by (auto simp: flushed_def alive_def dead_def)

lemma r_flushed_coord_remove:
  assumes "r_flushed n d L (Remove 0 # p) st" "step Coord st = Some st'"
  shows "g_idle n (L @ [Some d]) p st'"
proof -
  obtain pre s where b: "round_base n st pre s (L @ [Some d])" and pd: "pending st = Remove 0 # p"
    and c: "coord st = CIdle" and f: "flushed n s"
    using assms(1) by (auto simp: r_flushed_def)
  have nc: "\<not> crashed st" and sk: "sinks st = pre @ [s]" and rg: "registry st = [(0, length pre)]"
    using b by (auto simp: round_base_def)
  have o: "\<not> c_closed s" using f by (simp add: flushed_def alive_def)
  have e: "st' = st\<lparr>sinks := pre @ [s\<lparr>c_closed := True\<rparr>], registry := [],
      rets := rets st @ [RRemove (Inr (length pre))], pending := p\<rparr>"
    using assms(2) nc c pd sk rg o by (simp add: step_def coord_step_def close_c_def)
  show ?thesis using b e c flushed_closed_dead [OF f]
    by (auto simp: g_idle_def all_dead_def round_base_def)
qed

lemma r_flushed_coord_close:
  assumes "r_flushed n d L [Close] st" "step Coord st = Some st'"
  shows "finished n (L @ [Some d]) st'"
proof -
  obtain pre s where b: "round_base n st pre s (L @ [Some d])" and pd: "pending st = [Close]"
    and c: "coord st = CIdle" and f: "flushed n s"
    using assms(1) by (auto simp: r_flushed_def)
  have nc: "\<not> crashed st" and sk: "sinks st = pre @ [s]" and rg: "registry st = [(0, length pre)]"
    using b by (auto simp: round_base_def)
  have o: "\<not> c_closed s" using f by (simp add: flushed_def alive_def)
  have e: "st' = st\<lparr>sinks := pre @ [s\<lparr>c_closed := True\<rparr>], registry := [], coord := CDone,
      rets := rets st @ [RClose None], pending := []\<rparr>"
    using assms(2) nc c pd sk rg o by (simp add: step_def coord_step_def close_c_def)
  show ?thesis using b e flushed_closed_dead [OF f]
    by (auto simp: finished_def all_dead_def round_base_def)
qed

lemma r_idle_coord:
  "r_added n d L tail st \<Longrightarrow> coord st = CIdle"
  "r_written n d L tail st \<Longrightarrow> coord st = CIdle"
  "r_flushed n d L tail st \<Longrightarrow> coord st = CIdle"
  by (auto simp: r_added_def r_written_def r_flushed_def)

lemma round_step:
  assumes "1 \<le> n" "step l st = Some st'" "in_round n d L tail st"
    "r_flushed n d L tail st \<longrightarrow> l \<noteq> Coord"
  shows "in_round n d L tail st'"
proof (cases l)
  case Coord
  then show ?thesis using assms r_added_coord [of n d L tail st st'] r_written_coord [of n d L tail st st']
      r_flushing_coord [of n d L tail st st']
    by (auto simp: in_round_def)
next
  case (Pick i)
  have "\<not> r_added n d L tail st" "\<not> r_written n d L tail st" "\<not> r_flushed n d L tail st"
    using assms(2) Pick idle_no_pick [of st i] r_idle_coord [of n d L tail st] by auto
  then show ?thesis using assms(2,3) Pick r_flushing_pick [of n d L tail st i st']
    by (auto simp: in_round_def)
next
  case (Drain i)
  then show ?thesis using assms(2,3) r_added_drain [of n d L tail st i st']
      r_written_drain [of n d L tail st i st'] r_flushing_drain [of n d L tail st i st']
      r_flushed_drain [of n d L tail st i st']
    by (auto simp: in_round_def)
qed

lemma g_no_pick:
  "g_idle n l p st \<Longrightarrow> step (Pick i) st = None"
  "g_flush n l p st \<Longrightarrow> step (Pick i) st = None"
  "finished n l st \<Longrightarrow> step (Pick i) st = None"
  by (auto simp: g_idle_def g_flush_def finished_def step_def pick_step_def)

lemma finished_no_coord: "finished n l st \<Longrightarrow> step Coord st = None"
  by (auto simp: finished_def step_def coord_step_def)

lemma scen_inv_step:
  assumes "1 \<le> n" "scen_inv n st" "step l st = Some st'"
  shows "scen_inv n st'"
proof -
  consider (a) "g_idle n [] scenario st"
    | (b) "in_round n [1, 2, 3] []
          [Remove 0, Write [4, 5, 6], Flush, Add 0, Write [7, 8, 9], Flush, Close] st"
    | (c) "g_idle n [Some [1, 2, 3]] [Write [4, 5, 6], Flush, Add 0, Write [7, 8, 9], Flush, Close] st"
    | (d) "g_idle n [Some [1, 2, 3]] [Flush, Add 0, Write [7, 8, 9], Flush, Close] st"
    | (e) "g_flush n [Some [1, 2, 3]] [Add 0, Write [7, 8, 9], Flush, Close] st"
    | (f) "g_idle n [Some [1, 2, 3]] [Add 0, Write [7, 8, 9], Flush, Close] st"
    | (g) "in_round n [7, 8, 9] [Some [1, 2, 3]] [Close] st"
    | (h) "finished n [Some [1, 2, 3], Some [7, 8, 9]] st"
    using assms(2) unfolding scen_inv_def by blast
  then show ?thesis
  proof cases
    case a
    show ?thesis
    proof (cases l)
      case Coord
      have "r_added n [1, 2, 3] []
          [Remove 0, Write [4, 5, 6], Flush, Add 0, Write [7, 8, 9], Flush, Close] st'"
        using a assms(3) Coord
        by (intro g_idle_coord_add [of n "[]" "[1, 2, 3]" _ st st']) (simp_all add: scenario_def)
      then show ?thesis by (simp add: scen_inv_def in_round_def)
    next
      case (Pick i)
      then show ?thesis using a assms(3) g_no_pick(1) [of n "[]" scenario st i] by simp
    next
      case (Drain i)
      then show ?thesis using a assms(3) g_idle_drain [of n "[]" scenario st i st']
        by (simp add: scen_inv_def)
    qed
  next
    case b
    show ?thesis
    proof (cases "r_flushed n [1, 2, 3] []
          [Remove 0, Write [4, 5, 6], Flush, Add 0, Write [7, 8, 9], Flush, Close] st \<and> l = Coord")
      case False
      then have "in_round n [1, 2, 3] []
          [Remove 0, Write [4, 5, 6], Flush, Add 0, Write [7, 8, 9], Flush, Close] st'"
        using round_step [OF assms(1,3) b] by blast
      then show ?thesis by (simp add: scen_inv_def)
    next
      case True
      then have "g_idle n ([] @ [Some [1, 2, 3]])
          [Write [4, 5, 6], Flush, Add 0, Write [7, 8, 9], Flush, Close] st'"
        using assms(3) by (intro r_flushed_coord_remove [of n "[1, 2, 3]" "[]" _ st st']) simp_all
      then show ?thesis by (simp add: scen_inv_def)
    qed
  next
    case c
    show ?thesis
    proof (cases l)
      case Coord
      have "g_idle n [Some [1, 2, 3]] [Flush, Add 0, Write [7, 8, 9], Flush, Close] st'"
        using c assms(3) Coord
        by (intro g_idle_coord_write [of n "[Some [1, 2, 3]]" "[4, 5, 6]" _ st st']) simp_all
      then show ?thesis by (simp add: scen_inv_def)
    next
      case (Pick i)
      then show ?thesis using c assms(3) g_no_pick(1) [of n _ _ st i] by simp
    next
      case (Drain i)
      then show ?thesis using c assms(3) g_idle_drain [of n _ _ st i st']
        by (auto simp: scen_inv_def)
    qed
  next
    case d
    show ?thesis
    proof (cases l)
      case Coord
      have "g_flush n [Some [1, 2, 3]] [Add 0, Write [7, 8, 9], Flush, Close] st'"
        using d assms(3) Coord
        by (intro g_idle_coord_flush [of n "[Some [1, 2, 3]]" _ st st']) simp_all
      then show ?thesis by (simp add: scen_inv_def)
    next
      case (Pick i)
      then show ?thesis using d assms(3) g_no_pick(1) [of n _ _ st i] by simp
    next
      case (Drain i)
      then show ?thesis using d assms(3) g_idle_drain [of n _ _ st i st']
        by (auto simp: scen_inv_def)
    qed
  next
    case e
    show ?thesis
    proof (cases l)
      case Coord
      have "g_idle n [Some [1, 2, 3]] [Add 0, Write [7, 8, 9], Flush, Close] st'"
        using e assms(3) Coord
        by (intro g_flush_coord [of n "[Some [1, 2, 3]]" _ st st']) simp_all
      then show ?thesis by (simp add: scen_inv_def)
    next
      case (Pick i)
      then show ?thesis using e assms(3) g_no_pick(2) [of n _ _ st i] by simp
    next
      case (Drain i)
      then show ?thesis using e assms(3) g_flush_drain [of n _ _ st i st']
        by (auto simp: scen_inv_def)
    qed
  next
    case f
    show ?thesis
    proof (cases l)
      case Coord
      have "r_added n [7, 8, 9] [Some [1, 2, 3]] [Close] st'"
        using f assms(3) Coord
        by (intro g_idle_coord_add [of n "[Some [1, 2, 3]]" "[7, 8, 9]" "[Close]" st st']) simp_all
      then show ?thesis by (simp add: scen_inv_def in_round_def)
    next
      case (Pick i)
      then show ?thesis using f assms(3) g_no_pick(1) [of n _ _ st i] by simp
    next
      case (Drain i)
      then show ?thesis using f assms(3) g_idle_drain [of n _ _ st i st']
        by (auto simp: scen_inv_def)
    qed
  next
    case g
    show ?thesis
    proof (cases "r_flushed n [7, 8, 9] [Some [1, 2, 3]] [Close] st \<and> l = Coord")
      case False
      then have "in_round n [7, 8, 9] [Some [1, 2, 3]] [Close] st'"
        using round_step [OF assms(1,3) g] by blast
      then show ?thesis by (simp add: scen_inv_def)
    next
      case True
      then have "finished n ([Some [1, 2, 3]] @ [Some [7, 8, 9]]) st'"
        using assms(3) by (intro r_flushed_coord_close [of n "[7, 8, 9]" "[Some [1, 2, 3]]" st st']) simp_all
      then show ?thesis by (simp add: scen_inv_def)
    qed
  next
    case h
    show ?thesis
    proof (cases l)
      case Coord
      then show ?thesis using h assms(3) finished_no_coord [of n _ st] by simp
    next
      case (Pick i)
      then show ?thesis using h assms(3) g_no_pick(3) [of n _ st i] by simp
    next
      case (Drain i)
      then show ?thesis using h assms(3) finished_drain [of n _ st i st']
        by (auto simp: scen_inv_def)
    qed
  qed
qed

lemma scen_inv_init: "scen_inv n (init n [buffer] scenario)"
proof -
  have "g_idle n [] scenario (init n [buffer] scenario)"
    by (simp add: g_idle_def all_dead_def init_def logged_def buffer_def)
  then show ?thesis by (simp add: scen_inv_def)
qed

lemma scen_inv_reachable:
  assumes "1 \<le> n" "run ls (init n [buffer] scenario) = Some st"
  shows "scen_inv n st"
  using assms(2) scen_inv_init
proof (rule run_invariant)
  fix l a b assume "scen_inv n a" "step l a = Some b"
  with assms(1) show "scen_inv n b" by (rule scen_inv_step)
qed

lemma in_round_not_done: "in_round n d L tail st \<Longrightarrow> coord st \<noteq> CDone"
  unfolding in_round_def r_added_def r_written_def r_flushing_def r_flushed_def
  by (elim disjE exE conjE) auto

lemma gap_not_done:
  "g_idle n l p st \<Longrightarrow> coord st \<noteq> CDone" "g_flush n l p st \<Longrightarrow> coord st \<noteq> CDone"
  by (simp_all add: g_idle_def g_flush_def)

lemma scen_inv_done:
  assumes "scen_inv n st" "coord st = CDone"
  shows "finished n [Some [1, 2, 3], Some [7, 8, 9]] st"
  using assms(1) unfolding scen_inv_def
  by (elim disjE) (use assms(2) in \<open>auto dest: in_round_not_done gap_not_done\<close>)

lemma idle_can_step:
  assumes "\<not> crashed st" "coord st = CIdle" "pending st \<noteq> []"
  shows "\<exists>st'. step Coord st = Some st'"
  using assms by (cases "pending st") (auto simp: step_def coord_step_def)

lemma drain_can_step:
  assumes "\<not> crashed st" "i < length (sinks st)"
    "drain_local (sinks st ! i) (targets st) (waiting_on (coord st)) \<noteq> DBlocked"
  shows "\<exists>st'. step (Drain i) st = Some st'"
  using assms by (auto simp: step_def drain_step_def split: dres.splits)

lemma r_flushing_can_step:
  assumes "r_flushing n d L tail st" "1 \<le> n"
  shows "\<exists>l st'. step l st = Some st'"
proof -
  obtain pre s l where b: "round_base n st pre s l"
    and ph: "(coord st \<in> {CFlushNext [length pre], CFlushSel (length pre) [], CFlushReg (length pre) []}
         \<and> fed n d [] L l s) \<or>
      (\<exists>f. coord st = CFlushMark (length pre) f [] \<and> fed n d [f] L l s) \<or>
      (\<exists>f. coord st = CFlushWait (length pre) f [] \<and> marked n d f L l s) \<or>
      (coord st = CFlushNext [] \<and> flushed n s \<and> l = L @ [Some d])"
    using assms(1) by (auto simp: r_flushing_def)
  have nc: "\<not> crashed st" and sk: "sinks st = pre @ [s]" and tg: "targets st = [logged l]"
    using b by (auto simp: round_base_def)
  have dr: "\<exists>st'. step (Drain (length pre)) st = Some st'"
    if "drain_local s [logged l] (waiting_on (coord st)) \<noteq> DBlocked"
    using drain_can_step [OF nc, of "length pre"] that sk tg by simp
  from ph show ?thesis
  proof (elim disjE conjE exE)
    assume c: "coord st \<in> {CFlushNext [length pre], CFlushSel (length pre) [], CFlushReg (length pre) []}"
      and f: "fed n d [] L l s"
    then consider "coord st = CFlushNext [length pre]" | "coord st = CFlushSel (length pre) []"
      | "coord st = CFlushReg (length pre) []" by auto
    then show ?thesis
    proof cases
      case 1
      then have "step (Pick (length pre)) st \<noteq> None" using nc by (simp add: step_def pick_step_def)
      then show ?thesis by blast
    next
      case 2
      then have "step Coord st \<noteq> None" using nc sk by (simp add: step_def coord_step_def)
      then show ?thesis by blast
    next
      case 3
      then have "step Coord st \<noteq> None" using nc sk f
        by (simp add: step_def coord_step_def fed_def alive_def Let_def)
      then show ?thesis by blast
    qed
  next
    fix f assume c: "coord st = CFlushMark (length pre) f []" and fd: "fed n d [f] L l s"
    show ?thesis
    proof (cases "can_send s")
      case True
      then have "step Coord st \<noteq> None" using nc sk fd c
        by (simp add: step_def coord_step_def fed_def alive_def Let_def)
      then show ?thesis by blast
    next
      case False
      then have "c_buf s \<noteq> []" using fd assms(2) by (auto simp: can_send_def fed_def alive_def)
      then have "c_buf s = [Some d] \<and> pc s = DRange" using fd by (auto simp: fed_def)
      then have "drain_local s [logged l] (waiting_on (coord st)) \<noteq> DBlocked"
        by (simp add: drain_local_def)
      then show ?thesis using dr by blast
    qed
  next
    fix f assume c: "coord st = CFlushWait (length pre) f []" and m: "marked n d f L l s"
    have "drain_local s [logged l] (waiting_on (coord st)) \<noteq> DBlocked"
      using m c by (auto simp: marked_def alive_def drain_local_def Let_def split: if_splits)
    then show ?thesis using dr by blast
  next
    assume "coord st = CFlushNext []"
    then have "step Coord st \<noteq> None" using nc by (simp add: step_def coord_step_def)
    then show ?thesis by blast
  qed
qed

lemma in_round_can_step:
  assumes "in_round n d L tail st" "1 \<le> n" "tail \<noteq> []"
  shows "\<exists>l st'. step l st = Some st'"
proof -
  consider "r_added n d L tail st" | "r_written n d L tail st" | "r_flushing n d L tail st"
    | "r_flushed n d L tail st"
    using assms(1) by (auto simp: in_round_def)
  then show ?thesis
  proof cases
    case 1
    then have "\<not> crashed st \<and> coord st = CIdle \<and> pending st \<noteq> []"
      by (auto simp: r_added_def round_base_def)
    then show ?thesis using idle_can_step by blast
  next
    case 2
    then have "\<not> crashed st \<and> coord st = CIdle \<and> pending st \<noteq> []"
      by (auto simp: r_written_def round_base_def)
    then show ?thesis using idle_can_step by blast
  next
    case 3
    then show ?thesis using assms(2) by (rule r_flushing_can_step)
  next
    case 4
    then have "\<not> crashed st \<and> coord st = CIdle \<and> pending st \<noteq> []"
      using assms(3) by (auto simp: r_flushed_def round_base_def)
    then show ?thesis using idle_can_step by blast
  qed
qed

lemma g_idle_can_step:
  assumes "g_idle n l p st" "p \<noteq> []"
  shows "\<exists>l st'. step l st = Some st'"
proof -
  have "\<not> crashed st \<and> coord st = CIdle \<and> pending st \<noteq> []"
    using assms by (auto simp: g_idle_def all_dead_def)
  then show ?thesis using idle_can_step by blast
qed

lemma g_flush_can_step:
  assumes "g_flush n l p st"
  shows "\<exists>l st'. step l st = Some st'"
proof -
  have "step Coord st \<noteq> None"
    using assms by (auto simp: g_flush_def all_dead_def step_def coord_step_def)
  then show ?thesis by blast
qed

lemma scen_inv_can_step:
  assumes "scen_inv n st" "1 \<le> n" "coord st \<noteq> CDone"
  shows "\<exists>l st'. step l st = Some st'"
  using assms(1) unfolding scen_inv_def
proof (elim disjE)
  assume "g_idle n [] scenario st"
  then show ?thesis by (rule g_idle_can_step) (simp add: scenario_def)
next
  assume "finished n [Some [1, 2, 3], Some [7, 8, 9]] st"
  then show ?thesis using assms(3) by (simp add: finished_def)
qed (auto intro: g_idle_can_step g_flush_can_step in_round_can_step [OF _ assms(2)])

lemma sink_Write_split:
  "sink_Write s b = (if done_closed s then Some (s, 0, err s) else sink_Write_send s b)"
  by (simp add: sink_Write_def sink_Write_send_def)

lemma sink_Close_split:
  "sink_Close s ts =
     (case sink_Close_read s ts of
        CBlocked \<Rightarrow> None
      | CNoCloser \<Rightarrow> Some (s, ts, err s)
      | CHolds t \<Rightarrow> Some (sink_Close_finish t s ts))"
  by (simp add: sink_Close_def sink_Close_read_def sink_Close_finish_def Let_def
        split: option.splits prod.splits)

lemma term_ok_of_sink_ok: "sink_ok s \<Longrightarrow> done_closed s \<Longrightarrow> term_ok s"
  by (auto simp: sink_ok_def term_ok_def)

lemma sink_Close_frame:
  assumes "sink_Close s ts = Some (s', ts', e)"
  shows "map tlog ts' = map tlog ts" "map closer ts' = map closer ts"
    "map close_ret ts' = map close_ret ts" "length ts' = length ts"
    "c_buf s' = c_buf s" "c_closed s' = c_closed s" "pc s' = pc s" "done_closed s'"
    "e = err s'" "err s \<noteq> None \<Longrightarrow> err s' = err s"
  using assms
  by (auto simp: sink_Close_def target_Close_def Let_def map_update list_update_same_conv
        split: option.splits if_splits)



lemma data_items_append [simp]: "data_items (xs @ ys) = data_items xs @ data_items ys"
  by (simp add: data_items_def)

lemma data_items_tl_le:
  "\<exists>k \<le> length (data_items xs). data_items (tl xs) = drop k (data_items xs)"
proof (cases xs)
  case Nil
  then show ?thesis by (simp add: data_items_def)
next
  case (Cons x ys)
  show ?thesis
  proof (cases "x = None")
    case True
    then show ?thesis using Cons by (auto simp: data_items_def intro: exI [where x = 0])
  next
    case False
    then show ?thesis using Cons by (auto simp: data_items_def intro: exI [where x = 1])
  qed
qed

lemma drop_drop_append:
  "k1 \<le> length A \<Longrightarrow> drop k2 (drop k1 A @ B) = drop (k1 + k2) (A @ B)"
  by (simp add: add.commute)

lemma sends_Cons: "sends (a # as) = sends [a] @ sends as"
  by (cases a) simp_all

lemma worker_terminal:
  assumes "term_ok s" "drain_local s ts w = DNext s' ts' a"
  shows "term_ok s'" "map tlog ts' = map tlog ts" "err s' = err s"
    "c_buf s' = c_buf s \<or> c_buf s' = tl (c_buf s)"
    "length (c_buf s') + (if pc s' = DErrClose then 1 else 0)
       \<le> length (c_buf s) + (if pc s = DErrClose then 1 else 0)"
    "c_buf s \<noteq> [] \<Longrightarrow> length (c_buf s') + (if pc s' = DErrClose then 1 else 0)
       < length (c_buf s) + (if pc s = DErrClose then 1 else 0)"
proof -
  have "pc s \<in> {DErrClose, DSink, DExit}" using assms(1) by (simp add: term_ok_def)
  then consider "pc s = DErrClose" | "pc s = DSink" | "pc s = DExit" by auto
  then have "term_ok s' \<and> map tlog ts' = map tlog ts \<and> err s' = err s
     \<and> (c_buf s' = c_buf s \<or> c_buf s' = tl (c_buf s))
     \<and> length (c_buf s') + (if pc s' = DErrClose then 1 else 0)
       \<le> length (c_buf s) + (if pc s = DErrClose then 1 else 0)
     \<and> (c_buf s \<noteq> [] \<longrightarrow> length (c_buf s') + (if pc s' = DErrClose then 1 else 0)
       < length (c_buf s) + (if pc s = DErrClose then 1 else 0))"
  proof cases
    case 1
    then obtain s1 e where c: "sink_Close s ts = Some (s1, ts', e)" "s' = s1\<lparr>pc := DSink\<rparr>"
      using assms(2) by (auto simp: drain_local_def split: option.splits)
    note f = sink_Close_frame [OF c(1)]
    have "err s \<noteq> None" using 1 assms(1) by (simp add: term_ok_def)
    then have "err s1 = err s" using f(10) by simp
    then show ?thesis using 1 c(2) f by (simp add: term_ok_def)
  next
    case 2
    then show ?thesis using assms
      by (auto simp: drain_local_def term_ok_def split: list.splits if_splits)
  next
    case 3
    then show ?thesis using assms(2) by (simp add: drain_local_def)
  qed
  then show "term_ok s'" "map tlog ts' = map tlog ts" "err s' = err s"
    "c_buf s' = c_buf s \<or> c_buf s' = tl (c_buf s)"
    "length (c_buf s') + (if pc s' = DErrClose then 1 else 0)
       \<le> length (c_buf s) + (if pc s = DErrClose then 1 else 0)"
    "c_buf s \<noteq> [] \<Longrightarrow> length (c_buf s') + (if pc s' = DErrClose then 1 else 0)
       < length (c_buf s) + (if pc s = DErrClose then 1 else 0)"
    by simp_all
qed

lemma worker_terminal_moves:
  assumes "term_ok s" "c_buf s \<noteq> [] \<or> pc s = DErrClose"
  shows "\<exists>s' ts' a. drain_local s ts w = DNext s' ts' a"
proof -
  have "pc s \<in> {DErrClose, DSink, DExit}" using assms(1) by (simp add: term_ok_def)
  then consider "pc s = DErrClose" | "pc s = DSink" | "pc s = DExit" by auto
  then show ?thesis
  proof cases
    case 1
    have "done_closed s" using assms(1) by (simp add: term_ok_def)
    then have "sink_Close s ts \<noteq> None" by (rule sink_Close_enabled)
    then show ?thesis using 1 by (auto simp: drain_local_def split: option.splits)
  next
    case 2
    then show ?thesis using assms(2) by (auto simp: drain_local_def split: list.splits)
  next
    case 3
    then show ?thesis using assms by (simp add: term_ok_def)
  qed
qed

lemma sop_step_terminal:
  assumes "term_ok s" "sop_step a (s, ts) = Some (s', ts', r)"
  shows "term_ok s'" "map tlog ts' = map tlog ts" "err s \<noteq> None \<Longrightarrow> err s' = err s"
    "\<exists>k xs. k \<le> length (data_items (c_buf s) @ xs)
        \<and> data_items (c_buf s') = drop k (data_items (c_buf s) @ xs)
        \<and> set xs \<subseteq> set (sends [a]) \<and> length xs \<le> length (sends [a])"
proof -
  have "term_ok s' \<and> map tlog ts' = map tlog ts \<and> (err s \<noteq> None \<longrightarrow> err s' = err s)
    \<and> (\<exists>k xs. k \<le> length (data_items (c_buf s) @ xs)
        \<and> data_items (c_buf s') = drop k (data_items (c_buf s) @ xs)
        \<and> set xs \<subseteq> set (sends [a]) \<and> length xs \<le> length (sends [a]))"
  proof (cases a)
    case Worker
    then obtain acked where d: "drain_local s ts None = DNext s' ts' acked"
      using assms(2) by (auto simp: sop_step_def split: dres.splits)
    note w = worker_terminal [OF assms(1) d]
    obtain k where "k \<le> length (data_items (c_buf s))"
        "data_items (c_buf s') = drop k (data_items (c_buf s))"
      using w(4) data_items_tl_le [of "c_buf s"] by (auto intro: that [of 0])
    then have "k \<le> length (data_items (c_buf s) @ [])
        \<and> data_items (c_buf s') = drop k (data_items (c_buf s) @ [])
        \<and> set [] \<subseteq> set (sends [a]) \<and> length ([] :: item list) \<le> length (sends [a])"
      by simp
    then show ?thesis using w(1,2,3) by blast
  next
    case (WriteCall b)
    then have "s' = s \<and> ts' = ts" using assms
      by (auto simp: sop_step_def sink_Write_def term_ok_def)
    then have "term_ok s' \<and> map tlog ts' = map tlog ts \<and> (err s \<noteq> None \<longrightarrow> err s' = err s)
        \<and> 0 \<le> length (data_items (c_buf s) @ [])
        \<and> data_items (c_buf s') = drop 0 (data_items (c_buf s) @ [])
        \<and> set [] \<subseteq> set (sends [a]) \<and> length ([] :: item list) \<le> length (sends [a])"
      using assms(1) by simp
    then show ?thesis by blast
  next
    case (WriteSend b)
    then obtain k e where ws: "sink_Write_send s b = Some (s', k, e)" "ts' = ts"
      using assms(2) by (auto simp: sop_step_def split: option.splits)
    then consider "s' = s" | "s' = s\<lparr>c_buf := c_buf s @ [None]\<rparr>"
      | "s' = s\<lparr>c_buf := c_buf s @ [b]\<rparr>" "b \<noteq> None"
      by (cases "b = None") (auto simp: sink_Write_send_def split: if_splits)
    then have "\<exists>xs. data_items (c_buf s') = data_items (c_buf s) @ xs
        \<and> set xs \<subseteq> {b} \<and> length xs \<le> 1"
    proof cases
      case 1
      then show ?thesis by (auto intro: exI [where x = "[]"])
    next
      case 2
      then show ?thesis by (auto simp: data_items_def intro: exI [where x = "[]"])
    next
      case 3
      then show ?thesis by (auto simp: data_items_def intro: exI [where x = "[b]"])
    qed
    then obtain xs where xs: "data_items (c_buf s') = data_items (c_buf s) @ xs"
        "set xs \<subseteq> {b}" "length xs \<le> 1" by blast
    have "0 \<le> length (data_items (c_buf s) @ xs)
        \<and> data_items (c_buf s') = drop 0 (data_items (c_buf s) @ xs)
        \<and> set xs \<subseteq> set (sends [a]) \<and> length xs \<le> length (sends [a])"
      using xs WriteSend by simp
    moreover have "c_closed s = False" using ws(1) by (auto simp: sink_Write_send_def split: if_splits)
    moreover have "term_ok s' \<and> err s' = err s" using ws(1) assms(1)
      by (auto simp: sink_Write_send_def term_ok_def split: if_splits)
    ultimately show ?thesis using ws(2) by blast
  next
    case (FlushReg f)
    then have e: "s' = s\<lparr>flushers := flushers s @ [f]\<rparr>" "ts' = ts"
      using assms(2) by (auto simp: sop_step_def split: if_splits)
    then have "term_ok s' \<and> map tlog ts' = map tlog ts \<and> (err s \<noteq> None \<longrightarrow> err s' = err s)
        \<and> 0 \<le> length (data_items (c_buf s) @ [])
        \<and> data_items (c_buf s') = drop 0 (data_items (c_buf s) @ [])
        \<and> set [] \<subseteq> set (sends [a]) \<and> length ([] :: item list) \<le> length (sends [a])"
      using assms(1) by (simp add: term_ok_def)
    then show ?thesis by blast
  next
    case FlushMark
    then have e: "s' = s\<lparr>c_buf := c_buf s @ [None]\<rparr>" "ts' = ts" "\<not> c_closed s"
      using assms(2) by (auto simp: sop_step_def split: if_splits)
    then have "term_ok s' \<and> map tlog ts' = map tlog ts \<and> (err s \<noteq> None \<longrightarrow> err s' = err s)
        \<and> 0 \<le> length (data_items (c_buf s) @ [])
        \<and> data_items (c_buf s') = drop 0 (data_items (c_buf s) @ [])
        \<and> set [] \<subseteq> set (sends [a]) \<and> length ([] :: item list) \<le> length (sends [a])"
      using assms(1) by (auto simp: term_ok_def data_items_def)
    then show ?thesis by blast
  next
    case CloseQueue
    then have e: "s' = s\<lparr>c_closed := True\<rparr>" "ts' = ts"
      using assms(2) by (auto simp: sop_step_def split: if_splits)
    then have "term_ok s' \<and> map tlog ts' = map tlog ts \<and> (err s \<noteq> None \<longrightarrow> err s' = err s)
        \<and> 0 \<le> length (data_items (c_buf s) @ [])
        \<and> data_items (c_buf s') = drop 0 (data_items (c_buf s) @ [])
        \<and> set [] \<subseteq> set (sends [a]) \<and> length ([] :: item list) \<le> length (sends [a])"
      using assms(1) by (simp add: term_ok_def)
    then show ?thesis by blast
  next
    case HandleClose
    then obtain e where c: "sink_Close s ts = Some (s', ts', e)"
      using assms(2) by (auto simp: sop_step_def split: option.splits)
    note f = sink_Close_frame [OF c]
    have "term_ok s'" using assms(1) f
      by (cases "err s = None") (auto simp: term_ok_def)
    then have "term_ok s' \<and> map tlog ts' = map tlog ts \<and> (err s \<noteq> None \<longrightarrow> err s' = err s)
        \<and> 0 \<le> length (data_items (c_buf s) @ [])
        \<and> data_items (c_buf s') = drop 0 (data_items (c_buf s) @ [])
        \<and> set [] \<subseteq> set (sends [a]) \<and> length ([] :: item list) \<le> length (sends [a])"
      using f by simp
    then show ?thesis by blast
  qed
  then show "term_ok s'" "map tlog ts' = map tlog ts" "err s \<noteq> None \<Longrightarrow> err s' = err s"
    "\<exists>k xs. k \<le> length (data_items (c_buf s) @ xs)
        \<and> data_items (c_buf s') = drop k (data_items (c_buf s) @ xs)
        \<and> set xs \<subseteq> set (sends [a]) \<and> length xs \<le> length (sends [a])"
    by simp_all
qed

lemma sop_run_terminal:
  assumes "term_ok s" "sop_run as (s, ts) = Some (s', ts', rs)"
  shows "term_ok s' \<and> map tlog ts' = map tlog ts \<and> (err s \<noteq> None \<longrightarrow> err s' = err s)
    \<and> (\<exists>k xs. k \<le> length (data_items (c_buf s) @ xs)
        \<and> data_items (c_buf s') = drop k (data_items (c_buf s) @ xs)
        \<and> set xs \<subseteq> set (sends as) \<and> length xs \<le> length (sends as))"
  using assms
proof (induction as arbitrary: s ts rs)
  case Nil
  then have "s' = s \<and> ts' = ts" by simp
  then have "term_ok s' \<and> map tlog ts' = map tlog ts \<and> (err s \<noteq> None \<longrightarrow> err s' = err s)
      \<and> 0 \<le> length (data_items (c_buf s) @ [])
      \<and> data_items (c_buf s') = drop 0 (data_items (c_buf s) @ [])
      \<and> set [] \<subseteq> set (sends []) \<and> length ([] :: item list) \<le> length (sends [])"
    using Nil.prems(1) by simp
  then show ?case by blast
next
  case (Cons a as)
  from Cons.prems(2) obtain s1 ts1 r1 r2 where
    st: "sop_step a (s, ts) = Some (s1, ts1, r1)" "sop_run as (s1, ts1) = Some (s', ts', r2)"
    by (auto split: option.splits)
  note h = sop_step_terminal [OF Cons.prems(1) st(1)]
  from h(4) obtain k1 xs1 where k1: "k1 \<le> length (data_items (c_buf s) @ xs1)"
      "data_items (c_buf s1) = drop k1 (data_items (c_buf s) @ xs1)"
      "set xs1 \<subseteq> set (sends [a])" "length xs1 \<le> length (sends [a])" by blast
  from Cons.IH [OF h(1) st(2)] obtain k2 xs2 where
    t: "term_ok s'" "map tlog ts' = map tlog ts1" "err s1 \<noteq> None \<longrightarrow> err s' = err s1"
    and k2: "k2 \<le> length (data_items (c_buf s1) @ xs2)"
      "data_items (c_buf s') = drop k2 (data_items (c_buf s1) @ xs2)"
      "set xs2 \<subseteq> set (sends as)" "length xs2 \<le> length (sends as)" by blast
  have d: "data_items (c_buf s') = drop (k1 + k2) (data_items (c_buf s) @ (xs1 @ xs2))"
    using drop_drop_append [OF k1(1), of k2 xs2] k1(2) k2(2) by simp
  have l: "k1 + k2 \<le> length (data_items (c_buf s) @ (xs1 @ xs2))"
    using k1(1,2) k2(1) by simp
  have sub: "set (xs1 @ xs2) \<subseteq> set (sends (a # as))"
      "length (xs1 @ xs2) \<le> length (sends (a # as))"
    using k1(3,4) k2(3,4) sends_Cons [of a as] by auto
  have e: "err s \<noteq> None \<longrightarrow> err s' = err s" using h(3) t(3) by auto
  show ?case using t(1,2) h(2) e d l sub by metis
qed

lemma work_terminal:
  assumes "term_ok s" "length (c_buf s) + (if pc s = DErrClose then 1 else 0) \<le> k"
  shows "c_buf (fst (work k (s, ts))) = [] \<and> map tlog (snd (work k (s, ts))) = map tlog ts"
  using assms
proof (induction k arbitrary: s ts)
  case 0
  then show ?case by simp
next
  case (Suc k)
  show ?case
  proof (cases "sop_step Worker (s, ts)")
    case None
    have "c_buf s = []"
    proof (rule ccontr)
      assume "c_buf s \<noteq> []"
      then obtain s1 ts1 a where "drain_local s ts None = DNext s1 ts1 a"
        using worker_terminal_moves [OF Suc.prems(1), of ts None] by auto
      then show False using None by (simp add: sop_step_def)
    qed
    then show ?thesis using None by simp
  next
    case (Some r)
    obtain s1 ts1 r1 where r: "r = (s1, ts1, r1)" by (cases r)
    then obtain a where d: "drain_local s ts None = DNext s1 ts1 a"
      using Some by (auto simp: sop_step_def split: dres.splits)
    note w = worker_terminal [OF Suc.prems(1) d]
    have m: "length (c_buf s1) + (if pc s1 = DErrClose then 1 else 0) \<le> k"
    proof (cases "c_buf s = []")
      case True
      have "pc s1 \<noteq> DErrClose" using d Suc.prems(1)
        by (auto simp: drain_local_def term_ok_def split: option.splits list.splits if_splits)
      moreover have "c_buf s1 = []" using w(4) True by auto
      ultimately show ?thesis by simp
    next
      case False
      then show ?thesis using w(6) Suc.prems(2) by simp
    qed
    have "c_buf (fst (work k (s1, ts1))) = [] \<and> map tlog (snd (work k (s1, ts1))) = map tlog ts1"
      using Suc.IH [OF w(1) m] .
    then show ?thesis using Some r w(2) by simp
  qed
qed

lemma closes_simps [simp]:
  "closes [] = 0" "closes (a # as) = (if a = HandleClose then 1 else 0) + closes as"
  by (simp_all add: closes_def)












lemma terminal_Drain_is_Worker:
  assumes "wf_state st" "i < length (sinks st)" "done_closed (sinks st ! i)"
    "step (Drain i) st = Some st'"
  shows "sop_step Worker (sinks st ! i, targets st) = Some (sinks st' ! i, targets st', [])"
proof -
  have ok: "sink_ok (sinks st ! i)" using wf_sink_ok [OF assms(1,2)] .
  then have p: "pc (sinks st ! i) \<in> {DErrClose, DSink, DExit}" using assms(3) by (simp add: sink_ok_def)
  have w: "drain_local (sinks st ! i) (targets st) w = drain_local (sinks st ! i) (targets st) None" for w
    using p by (auto simp: drain_local_def)
  have "drain_step i st = Some st'" using assms(4) by (auto simp: step_def split: if_splits)
  then show ?thesis
  proof (cases rule: drain_stepE)
    case panics
    then show ?thesis using terminal_no_panic [OF assms(3) ok] by simp
  next
    case (moves s' ts' a)
    then show ?thesis using w [of "waiting_on (coord st)"] by (simp add: sop_step_def)
  qed
qed

lemma close_all_nth:
  "i < length (sinks st) \<Longrightarrow>
   sinks (close_all is st) ! i = sinks st ! i
   \<or> (\<not> c_closed (sinks st ! i) \<and> sinks (close_all is st) ! i = (sinks st ! i)\<lparr>c_closed := True\<rparr>)"
proof (induction "is" arbitrary: st)
  case Nil
  then show ?case by simp
next
  case (Cons sid rest)
  have l: "i < length (sinks (close_c sid st))" using Cons.prems by simp
  note ih = Cons.IH [OF l]
  show ?case
  proof (cases "i = sid \<and> \<not> c_closed (sinks st ! i)")
    case True
    then have "sinks (close_c sid st) ! i = (sinks st ! i)\<lparr>c_closed := True\<rparr>"
      using Cons.prems by (simp add: close_c_nth)
    then show ?thesis using ih True by auto
  next
    case False
    then have "sinks (close_c sid st) ! i = sinks st ! i"
      using Cons.prems by (auto simp: close_c_nth)
    then show ?thesis using ih by auto
  qed
qed

lemma dispatch_sink_terminal:
  assumes "i < length (sinks st)" "done_closed (sinks st ! i)"
  shows "sinks (dispatch c st) ! i = sinks st ! i
   \<or> (\<not> c_closed (sinks st ! i) \<and> sinks (dispatch c st) ! i = (sinks st ! i)\<lparr>c_closed := True\<rparr>)"
proof (cases c)
  case (Add t)
  have "sinks (close_c (length (sinks st)) (st\<lparr>sinks := sinks st @ [x]\<rparr>)) ! i = sinks st ! i" for x
    using assms(1) by (auto simp: close_c_def nth_append nth_list_update)
  then show ?thesis using Add assms(1) by (auto simp: Let_def nth_append split: option.splits)
next
  case (Remove t)
  then show ?thesis using assms(1) by (auto simp: close_c_nth split: option.splits)
next
  case (Write d)
  then show ?thesis using assms by (simp add: fan_out_done)
next
  case Flush
  then show ?thesis by simp
next
  case Close
  then show ?thesis using close_all_nth [OF assms(1)] by simp
qed

lemma step_acts_by_sops:
  assumes "wf_state st" "i < length (sinks st)" "done_closed (sinks st ! i)"
    "step l st = Some st'"
  shows "\<exists>as ts1 rs. sop_run as (sinks st ! i, targets st) = Some (sinks st' ! i, ts1, rs)
     \<and> sends as = [] \<and> closes as = 0"
proof -
  let ?s = "sinks st ! i"
  have same: "\<exists>as ts1 rs. sop_run as (?s, targets st) = Some (s1, ts1, rs)
     \<and> sends as = [] \<and> closes as = 0" if "s1 = ?s" for s1
    using that by (intro exI [where x = "[]"] exI [where x = "targets st"] exI [where x = "[]"]) simp
  have one: "\<exists>as ts1 rs. sop_run as (?s, targets st) = Some (s1, ts1, rs)
     \<and> sends as = [] \<and> closes as = 0"
    if "sop_step a (?s, targets st) = Some (s1, ts1, [])" "sends [a] = []" "a \<noteq> HandleClose"
    for a s1 ts1
    using that by (intro exI [where x = "[a]"] exI [where x = ts1] exI [where x = "[]"]) simp
  have closeq: "\<exists>as ts1 rs. sop_run as (?s, targets st) = Some (s1, ts1, rs)
     \<and> sends as = [] \<and> closes as = 0"
    if "s1 = ?s \<or> (\<not> c_closed ?s \<and> s1 = ?s\<lparr>c_closed := True\<rparr>)" for s1
  proof (cases "s1 = ?s")
    case True
    then show ?thesis by (rule same)
  next
    case False
    then have "sop_step CloseQueue (?s, targets st) = Some (s1, targets st, [])"
      using that by (simp add: sop_step_def)
    then show ?thesis by (rule one) simp_all
  qed
  show ?thesis
  proof (cases l)
    case Coord
    then have c: "coord_step st = Some st'" using assms(4) by (auto simp: step_def split: if_splits)
    show ?thesis
    proof (cases "coord st")
      case CIdle
      then obtain x xs where "pending st = x # xs" "st' = (dispatch x st)\<lparr>pending := xs\<rparr>"
        using c by (auto simp: coord_step_def split: list.splits)
      then have "sinks st' ! i = sinks (dispatch x st) ! i" by simp
      then show ?thesis using dispatch_sink_terminal [OF assms(2,3), of x] closeq by simp
    next
      case (CFlushNext todo)
      then have "sinks st' ! i = ?s" using c by (auto simp: coord_step_def split: if_splits)
      then show ?thesis by (rule same)
    next
      case (CFlushSel sid todo)
      then have "sinks st' ! i = ?s" using c by (auto simp: coord_step_def split: if_splits)
      then show ?thesis by (rule same)
    next
      case (CFlushReg sid todo)
      show ?thesis
      proof (cases "sinks st' ! i = ?s")
        case True
        then show ?thesis by (rule same)
      next
        case False
        then have "sop_step (FlushReg (next_f st)) (?s, targets st) = Some (sinks st' ! i, targets st, [])"
          using c CFlushReg assms(2)
          by (auto simp: coord_step_def sop_step_def Let_def nth_list_update split: if_splits)
        then show ?thesis by (rule one) simp_all
      qed
    next
      case (CFlushMark sid f todo)
      show ?thesis
      proof (cases "sinks st' ! i = ?s")
        case True
        then show ?thesis by (rule same)
      next
        case False
        then have "sop_step FlushMark (?s, targets st) = Some (sinks st' ! i, targets st, [])"
          using c CFlushMark assms(2)
          by (auto simp: coord_step_def sop_step_def Let_def nth_list_update split: if_splits)
        then show ?thesis by (rule one) simp_all
      qed
    next
      case (CFlushWait sid f todo)
      then show ?thesis using c by (simp add: coord_step_def)
    next
      case CDone
      then show ?thesis using c by (simp add: coord_step_def)
    qed
  next
    case (Pick j)
    then have "sinks st' ! i = ?s" using assms(4)
      by (auto simp: step_def dest: pick_step_sinks split: if_splits)
    then show ?thesis by (rule same)
  next
    case (Drain j)
    show ?thesis
    proof (cases "j = i")
      case False
      then have "drain_step j st = Some st'" using assms(4) Drain
        by (auto simp: step_def split: if_splits)
      then have "sinks st' ! i = ?s" using False by (simp add: drain_step_other)
      then show ?thesis by (rule same)
    next
      case True
      then have "sop_step Worker (?s, targets st) = Some (sinks st' ! i, targets st', [])"
        using terminal_Drain_is_Worker [OF assms(1,2,3)] assms(4) Drain by simp
      then show ?thesis by (rule one) simp_all
    qed
  qed
qed

section \<open>The claims\<close>

text \<open>
  C1. The call sequence \<^verbatim>\<open>Add(B); Write([1,2,3]); Flush(); Remove(B); Write([4,5,6]);
  Flush(); Add(B); Write([7,8,9]); Flush(); Close()\<close> on a started writer with queue depth
  at least 1 (the test uses 4) and \<open>B\<close> a \<^verbatim>\<open>bytes.Buffer\<close>: under every schedule of the
  coordinator and the sink workers, once \<open>Close\<close> has returned, \<open>B\<close> holds exactly
  \<open>[1,2,3,7,8,9]\<close>, all calls have been made and nothing has panicked; and no state reached
  before that is stuck, so the run cannot hang short of \<open>Close\<close> returning.
\<close>

theorem AddRemove_scenario_content:
  assumes "1 \<le> n" and "run ls (init n [buffer] scenario) = Some st"
  shows "(coord st = CDone \<longrightarrow>
           content (targets st ! 0) = [1, 2, 3, 7, 8, 9] \<and> pending st = [] \<and> \<not> crashed st)
     \<and> (coord st \<noteq> CDone \<longrightarrow> (\<exists>l st'. step l st = Some st'))"
proof (intro conjI impI)
  have i: "scen_inv n st" using assms by (rule scen_inv_reachable)
  {
    assume "coord st = CDone"
    with i have "finished n [Some [1, 2, 3], Some [7, 8, 9]] st" by (rule scen_inv_done)
    then show "content (targets st ! 0) = [1, 2, 3, 7, 8, 9]" "pending st = []" "\<not> crashed st"
      by (simp_all add: finished_def all_dead_def content_def logged_def)
  }
  {
    assume "coord st \<noteq> CDone"
    with i assms(1) show "\<exists>l st'. step l st = Some st'" by (rule scen_inv_can_step)
  }
qed

text \<open>
  At depth 4, one schedule that runs the scenario to the end.
\<close>

theorem AddRemove_scenario_content_witness:
  "(1::nat) \<le> 4
   \<and> run scenario_schedule (init 4 [buffer] scenario)
       = Some (the (run scenario_schedule (init 4 [buffer] scenario)))
   \<and> coord (the (run scenario_schedule (init 4 [buffer] scenario))) = CDone
   \<and> content (targets (the (run scenario_schedule (init 4 [buffer] scenario))) ! 0)
       = [1, 2, 3, 7, 8, 9]"
  using AddRemove_scenario_content [of 4 scenario_schedule
      "the (run scenario_schedule (init 4 [buffer] scenario))"]
  by (simp add: exec_defs scenario_def scenario_schedule_def content_def)

text \<open>
  C2 fails on the code. \<^verbatim>\<open>Add(B); Flush(); Write([1]); Flush()\<close> at depth 4, on the schedule
  where the worker, having acknowledged the first flush, has not left its loop over the
  flush requests when the second \<open>Flush\<close> sends its request: the worker acknowledges the
  second request before it has received that flush's marker. Both \<open>Flush\<close> calls have
  returned, the sink is registered, \<open>[1]\<close> is still in its queue and \<open>B\<close> has received
  nothing.
\<close>

theorem Flush_returns_with_data_queued:
  "run early_flush_schedule (init 4 [buffer] [Add 0, Flush, Write [1], Flush])
     = Some (the (run early_flush_schedule (init 4 [buffer] [Add 0, Flush, Write [1], Flush])))
   \<and> rets (the (run early_flush_schedule (init 4 [buffer] [Add 0, Flush, Write [1], Flush])))
       = [RAdd, RFlush, RWrite 1 None, RFlush]
   \<and> pending (the (run early_flush_schedule (init 4 [buffer] [Add 0, Flush, Write [1], Flush]))) = []
   \<and> coord (the (run early_flush_schedule (init 4 [buffer] [Add 0, Flush, Write [1], Flush]))) = CIdle
   \<and> registry (the (run early_flush_schedule (init 4 [buffer] [Add 0, Flush, Write [1], Flush])))
       = [(0, 0)]
   \<and> c_buf (sinks (the (run early_flush_schedule (init 4 [buffer] [Add 0, Flush, Write [1], Flush]))) ! 0)
       = [Some [1], None]
   \<and> tlog (targets (the (run early_flush_schedule (init 4 [buffer] [Add 0, Flush, Write [1], Flush]))) ! 0)
       = []"
  by (simp add: exec_defs early_flush_schedule_def)

text \<open>
  C3 (as amended). For every sink that is not terminal, whose queue is open and whose
  capacity is greater than 1: when the queue is within one slot of full
  (length + 1 = capacity), \<^verbatim>\<open>sink.Write\<close> enqueues the gap marker (the nil slice)
  instead of the incoming buffer, which is dropped, and reports the full length and no error.
\<close>

theorem sink_Write_gap_marker:
  assumes "\<not> done_closed s" and "\<not> c_closed s" and "1 < c_cap s"
    and "length (c_buf s) + 1 = c_cap s"
  shows "sink_Write s b = Some (s\<lparr>c_buf := c_buf s @ [None]\<rparr>, item_len b, None)"
  using assms by (simp add: sink_Write_def chan_len_def)

text \<open>
  A sink of capacity 2 holding one buffer: the next write enqueues the gap marker.
\<close>

theorem sink_Write_gap_marker_witness:
  "sink_Write ((new_sink 0 2)\<lparr>c_buf := [Some [1]]\<rparr>) (Some [2, 3])
     = Some ((new_sink 0 2)\<lparr>c_buf := [Some [1], None]\<rparr>, 2, None)"
  using sink_Write_gap_marker [of "(new_sink 0 2)\<lparr>c_buf := [Some [1]]\<rparr>" "Some [2, 3]"]
  by (simp add: new_sink_def item_len_def)

text \<open>
  C3 as stated fails at capacity 1: the guard \<^verbatim>\<open>cap(s.c) > 1\<close> sends the empty
  one-slot queue (length + 1 = capacity) to the non-blocking send, which enqueues the data.
\<close>

theorem sink_Write_capacity_one_counterexample:
  "\<not> done_closed (new_sink 0 1) \<and> length (c_buf (new_sink 0 1)) + 1 = c_cap (new_sink 0 1)
   \<and> sink_Write (new_sink 0 1) (Some [1]) = Some ((new_sink 0 1)\<lparr>c_buf := [Some [1]]\<rparr>, 1, None)
   \<and> sink_Write (new_sink 0 1) (Some [1]) \<noteq> Some ((new_sink 0 1)\<lparr>c_buf := [None]\<rparr>, 1, None)"
  by (simp add: sink_Write_def new_sink_def chan_len_def can_send_def item_len_def)



text \<open>
  C7. When the coordinator dequeues \<open>Remove t\<close> in a reachable state, the call returns
  \<^verbatim>\<open>ErrNotFound\<close> exactly when \<open>t\<close> is not registered, that is, when in the calls
  processed so far \<open>t\<close> was never added or was removed after its last \<open>Add\<close>; the state
  is then unchanged. When \<open>t\<close> is registered with sink \<open>sid\<close>, the call returns that
  sink as the handle and no error, \<open>t\<close> leaves the registry (other targets stay), and the
  only change to the sinks is that the queue of \<open>sid\<close> is closed: its contents and its
  worker are as they were, and the coordinator is back at its command loop.
\<close>

theorem Remove_NotFound_iff_unregistered:
  assumes "run ls (init n ts cs) = Some st"
    and "\<not> crashed st" and "coord st = CIdle" and "pending st = Remove t # rest"
  shows "\<exists>st' r. step Coord st = Some st' \<and> rets st' = rets st @ [RRemove r]
     \<and> coord st' = CIdle \<and> pending st' = rest \<and> \<not> crashed st'
     \<and> (r = Inl ErrNotFound \<longleftrightarrow> \<not> registered (processed cs st) t)
     \<and> (r = Inl ErrNotFound \<longleftrightarrow> map_of (registry st) t = None)
     \<and> (r = Inl ErrNotFound \<longrightarrow> registry st' = registry st \<and> sinks st' = sinks st)
     \<and> (\<forall>sid. map_of (registry st) t = Some sid \<longrightarrow>
           r = Inr sid \<and> sid < length (sinks st)
           \<and> map_of (registry st') t = None
           \<and> (\<forall>t'. t' \<noteq> t \<longrightarrow> map_of (registry st') t' = map_of (registry st) t')
           \<and> sinks st' = (sinks st)[sid := (sinks st ! sid)\<lparr>c_closed := True\<rparr>])"
proof -
  have w: "wf_state st" using assms(1) by (rule wf_reachable)
  have h: "(map_of (registry st) t \<noteq> None) = registered (processed cs st) t"
    using hist_reachable [OF assms(1)] by (rule hist_processed)
  have s: "step Coord st = Some ((dispatch (Remove t) st)\<lparr>pending := rest\<rparr>)"
    using assms(2-4) by (simp add: step_def coord_step_def)
  show ?thesis
  proof (cases "map_of (registry st) t")
    case None
    then show ?thesis using s h assms(2,3) by simp
  next
    case (Some sid)
    have o: "sid < length (sinks st)" "\<not> c_closed (sinks st ! sid)"
      using registered_sink_open [OF w Some] by auto
    then have c: "close_c sid st = st\<lparr>sinks := (sinks st)[sid := (sinks st ! sid)\<lparr>c_closed := True\<rparr>]\<rparr>"
      by (simp add: close_c_def)
    show ?thesis using s h assms(2,3) Some o
      by (simp add: c map_of_filter_fst)
  qed
qed

text \<open>
  \<^verbatim>\<open>Add(B); Remove(B); Remove(B)\<close>: the first \<open>Remove\<close> returns the sink, the second
  \<^verbatim>\<open>ErrNotFound\<close>.
\<close>

theorem Remove_NotFound_iff_unregistered_witness:
  "run [Coord, Coord] (init 4 [buffer] [Add 0, Remove 0, Remove 0])
     = Some (the (run [Coord, Coord] (init 4 [buffer] [Add 0, Remove 0, Remove 0])))
   \<and> rets (the (run [Coord, Coord] (init 4 [buffer] [Add 0, Remove 0, Remove 0])))
       = [RAdd, RRemove (Inr 0)]
   \<and> registered [Add 0, Remove 0] 0 = False
   \<and> rets (the (run [Coord, Coord, Coord] (init 4 [buffer] [Add 0, Remove 0, Remove 0])))
       = [RAdd, RRemove (Inr 0), RRemove (Inl ErrNotFound)]"
  using Remove_NotFound_iff_unregistered [of "[Coord, Coord]" 4 "[buffer]" "[Add 0, Remove 0, Remove 0]"
      "the (run [Coord, Coord] (init 4 [buffer] [Add 0, Remove 0, Remove 0]))" 0 "[]"]
  by (simp add: exec_defs registered_def processed_def)

text \<open>
  C6. When the coordinator dequeues \<open>Add t\<close> in a reachable state where \<open>t\<close> is already
  registered (with sink \<open>sid\<close>), the step changes nothing but this: the newly built sink
  is appended with its queue closed, \<open>Add\<close> returns, and the next call is pending. The
  registry, every existing sink (queue, buffered data, worker position) and the targets
  are as before, and no error is raised. The discarded sink's worker exits at its first
  step without touching a target and then never runs again; under every schedule that
  follows, the discarded sink is never registered and its queue stays empty. If the next
  call is \<open>Remove t\<close>, it returns the original sink \<open>sid\<close>, closes its queue and leaves
  \<open>t\<close> unregistered.
\<close>

theorem Add_registered_target_is_noop:
  assumes "run ls (init n ts cs) = Some st"
    and "\<not> crashed st" and "coord st = CIdle" and "pending st = Add t # rest"
    and "map_of (registry st) t = Some sid"
  shows "step Coord st =
       Some (st\<lparr>sinks := sinks st @ [discarded t (bufsPerSink st)],
                rets := rets st @ [RAdd], pending := rest\<rparr>)
     \<and> sid < length (sinks st)
     \<and> drain_local (discarded t (bufsPerSink st)) tgs w =
         DNext ((discarded t (bufsPerSink st))\<lparr>done_closed := True, flushers_closed := True,
                  pc := DExit\<rparr>) tgs False
     \<and> drain_local ((discarded t (bufsPerSink st))\<lparr>done_closed := True, flushers_closed := True,
                  pc := DExit\<rparr>) tgs w = DBlocked
     \<and> (\<forall>st1 sched. run (Coord # sched) st = Some st1 \<longrightarrow>
           length (sinks st) \<notin> snd ` set (registry st1)
           \<and> c_buf (sinks st1 ! length (sinks st)) = [])
     \<and> (\<forall>rest'. rest = Remove t # rest' \<longrightarrow>
           run [Coord, Coord] st =
             Some (st\<lparr>sinks := (sinks st)[sid := (sinks st ! sid)\<lparr>c_closed := True\<rparr>]
                               @ [discarded t (bufsPerSink st)],
                      registry := filter (\<lambda>kv. fst kv \<noteq> t) (registry st),
                      rets := rets st @ [RAdd, RRemove (Inr sid)], pending := rest'\<rparr>)
           \<and> map_of (filter (\<lambda>kv. fst kv \<noteq> t) (registry st)) t = None)"
proof -
  have w: "wf_state st" using assms(1) by (rule wf_reachable)
  have o: "sid < length (sinks st)" "\<not> c_closed (sinks st ! sid)"
    using registered_sink_open [OF w assms(5)] by auto
  let ?st1 = "st\<lparr>sinks := sinks st @ [discarded t (bufsPerSink st)],
                rets := rets st @ [RAdd], pending := rest\<rparr>"
  have s: "step Coord st = Some ?st1"
    using assms(2-5) by (simp add: step_def coord_step_def Let_def close_c_def discarded_def)
  have d1: "drain_local (discarded t (bufsPerSink st)) tgs w =
         DNext ((discarded t (bufsPerSink st))\<lparr>done_closed := True, flushers_closed := True,
                  pc := DExit\<rparr>) tgs False"
    by (simp add: drain_local_def discarded_def new_sink_def)
  have d2: "drain_local ((discarded t (bufsPerSink st))\<lparr>done_closed := True, flushers_closed := True,
                  pc := DExit\<rparr>) tgs w = DBlocked"
    by (simp add: drain_local_def discarded_def new_sink_def)
  have w1: "wf_state ?st1" using wf_step [OF w s] .
  have "length (sinks st) \<notin> snd ` set (registry st)"
    using w by (auto simp: wf_state_def)
  then have ret: "retired (length (sinks st)) ?st1" using w1 by (simp add: retired_def)
  have inert: "length (sinks st) \<notin> snd ` set (registry st1)
           \<and> c_buf (sinks st1 ! length (sinks st)) = []"
    if "run (Coord # sched) st = Some st1" for st1 sched
  proof -
    have "run sched ?st1 = Some st1" using that s by simp
    from retired_run [OF ret this] show ?thesis
      by (auto simp: retired_def discarded_def new_sink_def)
  qed
  have rm: "run [Coord, Coord] st =
             Some (st\<lparr>sinks := (sinks st)[sid := (sinks st ! sid)\<lparr>c_closed := True\<rparr>]
                               @ [discarded t (bufsPerSink st)],
                      registry := filter (\<lambda>kv. fst kv \<noteq> t) (registry st),
                      rets := rets st @ [RAdd, RRemove (Inr sid)], pending := rest'\<rparr>)"
    if "rest = Remove t # rest'" for rest'
    using s that assms(2,3,5) o
    by (simp add: step_def coord_step_def close_c_def nth_append list_update_append)
  show ?thesis using s o(1) d1 d2 inert rm by (simp add: map_of_filter_fst)
qed

text \<open>
  \<^verbatim>\<open>Add(B); Add(B); Remove(B)\<close> at depth 4: after the second \<open>Add\<close> the registry still
  maps \<open>B\<close> to the first sink, and the one \<open>Remove\<close> empties the registry.
\<close>

theorem Add_registered_target_is_noop_witness:
  "run [Coord] (init 4 [buffer] [Add 0, Add 0, Remove 0])
     = Some (the (run [Coord] (init 4 [buffer] [Add 0, Add 0, Remove 0])))
   \<and> registry (the (run [Coord, Coord] (init 4 [buffer] [Add 0, Add 0, Remove 0]))) = [(0, 0)]
   \<and> sinks (the (run [Coord, Coord] (init 4 [buffer] [Add 0, Add 0, Remove 0])))
       = [new_sink 0 4, discarded 0 4]
   \<and> run [Coord, Coord, Drain 1, Coord] (init 4 [buffer] [Add 0, Add 0, Remove 0])
       = Some (the (run [Coord, Coord, Drain 1, Coord] (init 4 [buffer] [Add 0, Add 0, Remove 0])))
   \<and> registry (the (run [Coord, Coord, Drain 1, Coord] (init 4 [buffer] [Add 0, Add 0, Remove 0]))) = []
   \<and> rets (the (run [Coord, Coord, Drain 1, Coord] (init 4 [buffer] [Add 0, Add 0, Remove 0])))
       = [RAdd, RAdd, RRemove (Inr 0)]"
  using Add_registered_target_is_noop [of "[Coord]" 4 "[buffer]" "[Add 0, Add 0, Remove 0]"
      "the (run [Coord] (init 4 [buffer] [Add 0, Add 0, Remove 0]))" 0 "[Remove 0]" 0 "[buffer]" None]
  by (simp add: exec_defs discarded_def)






text \<open>
  C5 (as amended). Take a sink whose done signal is closed, in any reachable state, and
  let any sequence of actions on that sink follow: steps of its worker, new calls of
  \<^verbatim>\<open>sink.Write\<close>, the second halves of \<^verbatim>\<open>sink.Write\<close> and \<^verbatim>\<open>sink.Flush\<close> calls that
  made their check of the done signal while it was still open, \<^verbatim>\<open>close(s.c)\<close>, and
  \<^verbatim>\<open>Close\<close> calls on the handle. Then the done signal is still closed, and a call of the
  write entry point that starts now returns count 0 and the latched error and leaves the
  sink, queue included, as it is; a latched error is kept. None of these actions writes to
  a target. The data buffers in the queue are a suffix of those queued at the start
  followed by buffers of the calls that were already past their check: only such a call
  adds data, at most one buffer each, and otherwise data only leaves. And the queue does
  drain: when the worker then runs for more steps than the queue has items, the queue is
  empty and still no target has received a write (the items were discarded). The same
  refusal holds after every schedule of the running system, each step of which acts on
  the sink as one of these actions, other than the second half of a write and a
  \<^verbatim>\<open>Close\<close> on the handle, or leaves it alone.
\<close>

theorem terminal_sink_refuses_writes_and_discards:
  assumes "run ls (init n ts cs) = Some st" and "i < length (sinks st)"
    and "done_closed (sinks st ! i)"
    and "sop_run as (sinks st ! i, targets st) = Some (s', ts', rs)"
  shows "done_closed s'
     \<and> sink_Write s' b = Some (s', 0, err s')
     \<and> (err (sinks st ! i) \<noteq> None \<longrightarrow> err s' = err (sinks st ! i))
     \<and> map tlog ts' = map tlog (targets st)
     \<and> (\<exists>k xs. data_items (c_buf s') = drop k (data_items (c_buf (sinks st ! i)) @ xs)
           \<and> set xs \<subseteq> set (sends as) \<and> length xs \<le> length (sends as))
     \<and> (\<forall>k > length (c_buf s').
           c_buf (fst (work k (s', ts'))) = []
           \<and> map tlog (snd (work k (s', ts'))) = map tlog (targets st))
     \<and> (\<forall>sched st'. run sched st = Some st' \<longrightarrow>
           done_closed (sinks st' ! i) \<and> err (sinks st' ! i) = err (sinks st ! i)
           \<and> sink_Write (sinks st' ! i) b = Some (sinks st' ! i, 0, err (sinks st ! i)))
     \<and> (\<forall>l st'. step l st = Some st' \<longrightarrow>
           (\<exists>as' ts1 rs1. sop_run as' (sinks st ! i, targets st) = Some (sinks st' ! i, ts1, rs1)
               \<and> sends as' = [] \<and> closes as' = 0))"
proof -
  have w: "wf_state st" using assms(1) by (rule wf_reachable)
  have ok: "sink_ok (sinks st ! i)" using wf_sink_ok [OF w assms(2)] .
  have t0: "term_ok (sinks st ! i)" using ok assms(3) by (rule term_ok_of_sink_ok)
  note r = sop_run_terminal [OF t0 assms(4)]
  have t1: "term_ok s'" using r by simp
  then have d1: "done_closed s'" by (simp add: term_ok_def)
  have a: "c_buf (fst (work k (s', ts'))) = []
      \<and> map tlog (snd (work k (s', ts'))) = map tlog (targets st)"
    if "length (c_buf s') < k" for k
  proof -
    have "length (c_buf s') + (if pc s' = DErrClose then 1 else 0) \<le> k" using that by simp
    from work_terminal [OF t1 this, of ts'] r show ?thesis by simp
  qed
  have b: "done_closed (sinks st' ! i) \<and> err (sinks st' ! i) = err (sinks st ! i)
      \<and> sink_Write (sinks st' ! i) b = Some (sinks st' ! i, 0, err (sinks st ! i))"
    if "run sched st = Some st'" for sched st'
    using terminal_run [OF w assms(2,3) that] by (simp add: sink_Write_def)
  have c: "\<exists>k xs. data_items (c_buf s') = drop k (data_items (c_buf (sinks st ! i)) @ xs)
           \<and> set xs \<subseteq> set (sends as) \<and> length xs \<le> length (sends as)"
    using r by blast
  have e: "\<exists>as' ts1 rs1. sop_run as' (sinks st ! i, targets st) = Some (sinks st' ! i, ts1, rs1)
               \<and> sends as' = [] \<and> closes as' = 0"
    if "step l st = Some st'" for l st'
    using step_acts_by_sops [OF w assms(2,3) that] .
  have f: "done_closed s' \<and> sink_Write s' b = Some (s', 0, err s')
     \<and> (err (sinks st ! i) \<noteq> None \<longrightarrow> err s' = err (sinks st ! i))
     \<and> map tlog ts' = map tlog (targets st)"
    using d1 r by (simp add: sink_Write_def)
  show ?thesis using f a b c e by blast
qed

text \<open>
  A target whose first write fails, with two more buffers queued behind the failed one. A
  write of \<open>[4]\<close> that was past its check goes on and enqueues, and the worker runs its own
  \<^verbatim>\<open>Close\<close> and discards \<open>[2]\<close>: the queue holds \<open>[3], [4]\<close>. A new write of \<open>[5]\<close> is
  refused with count 0, and three more steps of the worker empty the queue while the
  target's log still holds the failed write only.
\<close>

theorem terminal_sink_refuses_writes_and_discards_witness:
  "run [Coord, Coord, Coord, Coord, Drain 0, Drain 0]
       (init 4 [flaky] [Add 0, Write [1], Write [2], Write [3]])
     = Some (the (run [Coord, Coord, Coord, Coord, Drain 0, Drain 0]
       (init 4 [flaky] [Add 0, Write [1], Write [2], Write [3]])))
   \<and> c_buf (sinks (the (run [Coord, Coord, Coord, Coord, Drain 0, Drain 0]
       (init 4 [flaky] [Add 0, Write [1], Write [2], Write [3]]))) ! 0) = [Some [2], Some [3]]
   \<and> c_buf (fst (the (sop_run [WriteSend (Some [4]), Worker, Worker]
        (sinks (the (run [Coord, Coord, Coord, Coord, Drain 0, Drain 0]
           (init 4 [flaky] [Add 0, Write [1], Write [2], Write [3]]))) ! 0,
         targets (the (run [Coord, Coord, Coord, Coord, Drain 0, Drain 0]
           (init 4 [flaky] [Add 0, Write [1], Write [2], Write [3]]))))))) = [Some [3], Some [4]]
   \<and> fst (snd (the (sink_Write (fst (the (sop_run [WriteSend (Some [4]), Worker, Worker]
        (sinks (the (run [Coord, Coord, Coord, Coord, Drain 0, Drain 0]
           (init 4 [flaky] [Add 0, Write [1], Write [2], Write [3]]))) ! 0,
         targets (the (run [Coord, Coord, Coord, Coord, Drain 0, Drain 0]
           (init 4 [flaky] [Add 0, Write [1], Write [2], Write [3]])))))))
        (Some [5])))) = 0
   \<and> c_buf (fst (work 3
       (fst (the (sop_run [WriteSend (Some [4]), Worker, Worker]
        (sinks (the (run [Coord, Coord, Coord, Coord, Drain 0, Drain 0]
           (init 4 [flaky] [Add 0, Write [1], Write [2], Write [3]]))) ! 0,
         targets (the (run [Coord, Coord, Coord, Coord, Drain 0, Drain 0]
           (init 4 [flaky] [Add 0, Write [1], Write [2], Write [3]])))))),
        fst (snd (the (sop_run [WriteSend (Some [4]), Worker, Worker]
        (sinks (the (run [Coord, Coord, Coord, Coord, Drain 0, Drain 0]
           (init 4 [flaky] [Add 0, Write [1], Write [2], Write [3]]))) ! 0,
         targets (the (run [Coord, Coord, Coord, Coord, Drain 0, Drain 0]
           (init 4 [flaky] [Add 0, Write [1], Write [2], Write [3]])))))))))) = []
   \<and> map tlog (snd (work 3
       (fst (the (sop_run [WriteSend (Some [4]), Worker, Worker]
        (sinks (the (run [Coord, Coord, Coord, Coord, Drain 0, Drain 0]
           (init 4 [flaky] [Add 0, Write [1], Write [2], Write [3]]))) ! 0,
         targets (the (run [Coord, Coord, Coord, Coord, Drain 0, Drain 0]
           (init 4 [flaky] [Add 0, Write [1], Write [2], Write [3]])))))),
        fst (snd (the (sop_run [WriteSend (Some [4]), Worker, Worker]
        (sinks (the (run [Coord, Coord, Coord, Coord, Drain 0, Drain 0]
           (init 4 [flaky] [Add 0, Write [1], Write [2], Write [3]]))) ! 0,
         targets (the (run [Coord, Coord, Coord, Coord, Drain 0, Drain 0]
           (init 4 [flaky] [Add 0, Write [1], Write [2], Write [3]])))))))))) = [[Some [1]]]"
  using terminal_sink_refuses_writes_and_discards
    [of "[Coord, Coord, Coord, Coord, Drain 0, Drain 0]" 4
      "[flaky]" "[Add 0, Write [1], Write [2], Write [3]]"
      "the (run [Coord, Coord, Coord, Coord, Drain 0, Drain 0]
         (init 4 [flaky] [Add 0, Write [1], Write [2], Write [3]]))" 0
      "[WriteSend (Some [4]), Worker, Worker]"
      "fst (the (sop_run [WriteSend (Some [4]), Worker, Worker]
        (sinks (the (run [Coord, Coord, Coord, Coord, Drain 0, Drain 0]
           (init 4 [flaky] [Add 0, Write [1], Write [2], Write [3]]))) ! 0,
         targets (the (run [Coord, Coord, Coord, Coord, Drain 0, Drain 0]
           (init 4 [flaky] [Add 0, Write [1], Write [2], Write [3]]))))))"
      "fst (snd (the (sop_run [WriteSend (Some [4]), Worker, Worker]
        (sinks (the (run [Coord, Coord, Coord, Coord, Drain 0, Drain 0]
           (init 4 [flaky] [Add 0, Write [1], Write [2], Write [3]]))) ! 0,
         targets (the (run [Coord, Coord, Coord, Coord, Drain 0, Drain 0]
           (init 4 [flaky] [Add 0, Write [1], Write [2], Write [3]])))))))"
      "snd (snd (the (sop_run [WriteSend (Some [4]), Worker, Worker]
        (sinks (the (run [Coord, Coord, Coord, Coord, Drain 0, Drain 0]
           (init 4 [flaky] [Add 0, Write [1], Write [2], Write [3]]))) ! 0,
         targets (the (run [Coord, Coord, Coord, Coord, Drain 0, Drain 0]
           (init 4 [flaky] [Add 0, Write [1], Write [2], Write [3]])))))))"
      "Some [5]"]
  by (simp add: exec_defs flaky_def sop_step_def sink_Write_send_def numeral_3_eq_3)

text \<open>
  C5 as stated says that a sink whose done signal is closed accepts no data and that its
  write entry point enqueues nothing. \<^verbatim>\<open>sink.Write\<close> checks the signal first and sends
  afterwards, and nothing keeps the worker from closing the signal in between. The worker
  holds \<open>[1]\<close>, which the target will refuse, and the done signal is open: a call
  \<^verbatim>\<open>sink.Write([2])\<close> passes its check here. The worker's write then fails and closes the
  done signal. The call goes on: it enqueues \<open>[2]\<close> into the terminal sink and returns
  \<open>(1, nil)\<close>.
\<close>

theorem write_past_done_check_enqueues_counterexample:
  "\<not> done_closed (sinks (the (run [Coord, Coord, Drain 0] (init 4 [flaky] [Add 0, Write [1]]))) ! 0)
   \<and> done_closed (fst (the (sop_step Worker
        (sinks (the (run [Coord, Coord, Drain 0] (init 4 [flaky] [Add 0, Write [1]]))) ! 0,
         targets (the (run [Coord, Coord, Drain 0] (init 4 [flaky] [Add 0, Write [1]]))))))) 
   \<and> c_buf (fst (the (sop_step Worker
        (sinks (the (run [Coord, Coord, Drain 0] (init 4 [flaky] [Add 0, Write [1]]))) ! 0,
         targets (the (run [Coord, Coord, Drain 0] (init 4 [flaky] [Add 0, Write [1]]))))))) = []
   \<and> c_buf (fst (the (sink_Write_send (fst (the (sop_step Worker
        (sinks (the (run [Coord, Coord, Drain 0] (init 4 [flaky] [Add 0, Write [1]]))) ! 0,
         targets (the (run [Coord, Coord, Drain 0] (init 4 [flaky] [Add 0, Write [1]])))))))
        (Some [2])))) = [Some [2]]
   \<and> snd (the (sink_Write_send (fst (the (sop_step Worker
        (sinks (the (run [Coord, Coord, Drain 0] (init 4 [flaky] [Add 0, Write [1]]))) ! 0,
         targets (the (run [Coord, Coord, Drain 0] (init 4 [flaky] [Add 0, Write [1]])))))))
        (Some [2]))) = (1, None)"
  by (simp add: exec_defs flaky_def sop_step_def sink_Write_send_def)

text \<open>
  C10. In every reachable state of the running system, for any calls and any schedule:
  what a target's \<^verbatim>\<open>Write\<close> has received since the start is a list of non-nil buffers,
  each of them the copy made by one of the producer's \<^verbatim>\<open>Write\<close> calls; and a worker
  that is about to call the target's \<^verbatim>\<open>Write\<close> holds such a buffer. The nil slice (gap
  marker or flush request) is never passed on.
\<close>

theorem gap_marker_never_written_to_target:
  assumes "run ls (init n ts cs) = Some st"
  shows "length (targets st) = length ts
     \<and> (\<forall>j < length ts. \<exists>new. tlog (targets st ! j) = tlog (ts ! j) @ new
           \<and> None \<notin> set new \<and> (\<forall>x \<in> set new. \<exists>d. x = Some d \<and> Write d \<in> set cs))
     \<and> (\<forall>i < length (sinks st). \<forall>x. pc (sinks st ! i) = DWrite x \<longrightarrow>
           (\<exists>d. x = Some d \<and> Write d \<in> set cs))"
proof -
  have d: "delivery_inv cs ts st" using assms by (rule delivery_reachable)
  have s: "x \<in> submitted cs \<Longrightarrow> \<exists>d. x = Some d \<and> Write d \<in> set cs" for x
    by (auto simp: submitted_def)
  have n: "set new \<subseteq> submitted cs \<Longrightarrow> None \<notin> set new" for new
    by (auto simp: submitted_def)
  have "\<exists>new. tlog (targets st ! j) = tlog (ts ! j) @ new
           \<and> None \<notin> set new \<and> (\<forall>x \<in> set new. \<exists>d. x = Some d \<and> Write d \<in> set cs)"
    if j: "j < length ts" for j
  proof -
    obtain new where "tlog (targets st ! j) = tlog (ts ! j) @ new" "set new \<subseteq> submitted cs"
      using d j unfolding delivery_inv_def logs_ok_def by blast
    then show ?thesis using n [of new] s by blast
  qed
  moreover have "\<exists>d. x = Some d \<and> Write d \<in> set cs"
    if i: "i < length (sinks st)" "pc (sinks st ! i) = DWrite x" for i x
  proof -
    have "items_ok cs (sinks st ! i)" using d i(1) by (simp add: delivery_inv_def)
    then have "x \<in> submitted cs" using i(2) by (simp add: items_ok_def)
    then show ?thesis by (rule s)
  qed
  ultimately show ?thesis using d by (auto simp: delivery_inv_def logs_ok_def)
qed

text \<open>
  Depth 2 and three writes: the second write leaves a gap marker in the queue, the third
  is dropped; after the worker has drained the queue and exited, the target has received
  \<open>[1]\<close> and no nil buffer.
\<close>

theorem gap_marker_never_written_to_target_witness:
  "run [Coord, Coord, Coord, Coord, Coord, Drain 0, Drain 0, Drain 0, Drain 0, Drain 0, Drain 0]
       (init 2 [buffer] [Add 0, Write [1], Write [2], Write [3], Close])
     = Some (the (run [Coord, Coord, Coord, Coord, Coord, Drain 0, Drain 0, Drain 0, Drain 0, Drain 0, Drain 0]
       (init 2 [buffer] [Add 0, Write [1], Write [2], Write [3], Close])))
   \<and> c_buf (sinks (the (run [Coord, Coord, Coord, Coord]
       (init 2 [buffer] [Add 0, Write [1], Write [2], Write [3], Close]))) ! 0) = [Some [1], None]
   \<and> tlog (targets (the (run [Coord, Coord, Coord, Coord, Coord, Drain 0, Drain 0, Drain 0, Drain 0, Drain 0, Drain 0]
       (init 2 [buffer] [Add 0, Write [1], Write [2], Write [3], Close]))) ! 0) = [Some [1]]
   \<and> pc (sinks (the (run [Coord, Coord, Coord, Coord, Coord, Drain 0, Drain 0, Drain 0, Drain 0, Drain 0, Drain 0]
       (init 2 [buffer] [Add 0, Write [1], Write [2], Write [3], Close]))) ! 0) = DExit"
  using gap_marker_never_written_to_target [of
      "[Coord, Coord, Coord, Coord, Coord, Drain 0, Drain 0, Drain 0, Drain 0, Drain 0, Drain 0]" 2
      "[buffer]" "[Add 0, Write [1], Write [2], Write [3], Close]"
      "the (run [Coord, Coord, Coord, Coord, Coord, Drain 0, Drain 0, Drain 0, Drain 0, Drain 0, Drain 0]
       (init 2 [buffer] [Add 0, Write [1], Write [2], Write [3], Close]))"]
  by (simp add: exec_defs)

end
